theory Spec2Isabelle
  imports Main "HOL-Library.Sublist" "HOL-Library.AList"
begin

section \<open>JavaScript strings\<close>

text \<open>
  A JavaScript string is a sequence of UTF-16 code units and \<open>.length\<close> counts code
  units, so a string is modelled as the list of its code units, each a natural number.
  \<open>js\<close> turns an ASCII literal into such a list.
\<close>

type_synonym jsstring = "nat list"

definition cu :: "char \<Rightarrow> nat" where
  "cu c = of_char c"

definition js :: "string \<Rightarrow> jsstring" where
  "js s = map cu s"

definition in_range :: "char \<Rightarrow> char \<Rightarrow> nat \<Rightarrow> bool" where
  "in_range a b c \<longleftrightarrow> cu a \<le> c \<and> c \<le> cu b"

definition is_alpha :: "nat \<Rightarrow> bool" where
  \<comment> \<open>the class \<open>[a-zA-Z]\<close>\<close>
  "is_alpha c \<longleftrightarrow> in_range CHR ''a'' CHR ''z'' c \<or> in_range CHR ''A'' CHR ''Z'' c"

definition is_alnum :: "nat \<Rightarrow> bool" where
  \<comment> \<open>the class \<open>[a-zA-Z0-9]\<close>\<close>
  "is_alnum c \<longleftrightarrow> is_alpha c \<or> in_range CHR ''0'' CHR ''9'' c"

definition local_class :: "nat \<Rightarrow> bool" where
  \<comment> \<open>the class \<open>[a-zA-Z0-9._%+-]\<close>\<close>
  "local_class c \<longleftrightarrow> is_alnum c \<or> c \<in> set (js ''._%+-'')"

definition domain_class :: "nat \<Rightarrow> bool" where
  \<comment> \<open>the class \<open>[a-zA-Z0-9.-]\<close>\<close>
  "domain_class c \<longleftrightarrow> is_alnum c \<or> c \<in> set (js ''.-'')"

definition at_class :: "nat \<Rightarrow> bool" where
  "at_class c \<longleftrightarrow> c = cu CHR ''@''"

definition dot_class :: "nat \<Rightarrow> bool" where
  "dot_class c \<longleftrightarrow> c = cu CHR ''.''"

definition separator_class :: "nat \<Rightarrow> bool" where
  \<comment> \<open>the class \<open>[-:;,|]\<close>\<close>
  "separator_class c \<longleftrightarrow> c \<in> set (js ''-:;,|'')"

definition filename_class :: "nat \<Rightarrow> bool" where
  \<comment> \<open>the class \<open>[a-zA-Z0-9-_ ]\<close>, whose complement \<open>generateCSV\<close> replaces\<close>
  "filename_class c \<longleftrightarrow> is_alnum c \<or> c \<in> set (js ''-_ '')"

definition is_white_space :: "nat \<Rightarrow> bool" where
  \<comment> \<open>ECMAScript WhiteSpace and LineTerminator code points, which \<open>trim\<close> removes\<close>
  "is_white_space c \<longleftrightarrow>
     c \<in> {9, 10, 11, 12, 13, 32, 160, 5760, 8232, 8233, 8239, 8287, 12288, 65279}
     \<or> (8192 \<le> c \<and> c \<le> 8202)"

definition trim :: "jsstring \<Rightarrow> jsstring" where
  "trim s = rev (dropWhile is_white_space (rev (dropWhile is_white_space s)))"

definition toLowerCase :: "jsstring \<Rightarrow> jsstring" where
  \<comment> \<open>The source lower-cases only the text matched by \<open>EMAIL_REGEX\<close>, which is ASCII;
      on ASCII \<open>toLowerCase\<close> moves \<open>A-Z\<close> to \<open>a-z\<close> and keeps every other code unit.\<close>
  "toLowerCase s = map (\<lambda>c. if in_range CHR ''A'' CHR ''Z'' c then c + 32 else c) s"

fun str_includes :: "jsstring \<Rightarrow> jsstring \<Rightarrow> bool" where
  "str_includes [] p = (p = [])"
| "str_includes (x # xs) p = (prefix p (x # xs) \<or> str_includes xs p)"

fun replaceStr :: "jsstring \<Rightarrow> jsstring \<Rightarrow> jsstring \<Rightarrow> jsstring" where
  \<comment> \<open>\<open>s.replace(p, r)\<close> with a string pattern: the first occurrence only. The source's
      replacement is the empty string, so no \<open>$\<close> pattern arises.\<close>
  "replaceStr [] p r = (if p = [] then r else [])"
| "replaceStr (x # xs) p r =
     (if prefix p (x # xs) then r @ drop (length p) (x # xs) else x # replaceStr xs p r)"

definition stripSeparators :: "jsstring \<Rightarrow> jsstring" where
  \<comment> \<open>\<open>s.replace(/^[-:;,|]+|[-:;,|]+$/g, "")\<close>: the first alternative matches only at
      index 0 and takes the whole leading run; the second matches at the first later
      index from which only separators follow, up to the end.\<close>
  "stripSeparators s = rev (dropWhile separator_class (rev (dropWhile separator_class s)))"

section \<open>The regular expression\<close>

text \<open>
  \<open>EMAIL_REGEX\<close> is a sequence of character classes, each taken once or under a greedy
  quantifier with a lower bound. \<open>rep\<close> is the backtracking matcher of a greedy
  quantifier: it takes one more character when it can, and falls back to the
  continuation at the current position when the longer attempt fails. The result is the
  number of code units matched.
\<close>

datatype item = One "nat \<Rightarrow> bool" | AtLeast nat "nat \<Rightarrow> bool"

fun rep :: "(nat \<Rightarrow> bool) \<Rightarrow> nat \<Rightarrow> (jsstring \<Rightarrow> nat option) \<Rightarrow> jsstring \<Rightarrow> nat option" where
  "rep c n k [] = (if n = 0 then k [] else None)"
| "rep c n k (x # xs) =
     (if c x then
        (case rep c (n - 1) k xs of
           Some r \<Rightarrow> Some (Suc r)
         | None \<Rightarrow> (if n = 0 then k (x # xs) else None))
      else (if n = 0 then k (x # xs) else None))"

primrec match_items :: "item list \<Rightarrow> jsstring \<Rightarrow> nat option" where
  "match_items [] s = Some 0"
| "match_items (i # r) s =
     (case i of
        One c \<Rightarrow>
          (case s of
             [] \<Rightarrow> None
           | x # xs \<Rightarrow> (if c x then map_option Suc (match_items r xs) else None))
      | AtLeast n c \<Rightarrow> rep c n (match_items r) s)"

fun regex_exec :: "item list \<Rightarrow> jsstring \<Rightarrow> (nat \<times> nat) option" where
  \<comment> \<open>the leftmost index at which the pattern matches, and the length matched there\<close>
  "regex_exec r [] = map_option (\<lambda>n. (0, n)) (match_items r [])"
| "regex_exec r (x # xs) =
     (case match_items r (x # xs) of
        Some n \<Rightarrow> Some (0, n)
      | None \<Rightarrow> map_option (\<lambda>(i, n). (Suc i, n)) (regex_exec r xs))"

definition EMAIL_REGEX :: "item list" where
  \<comment> \<open>\<open>/([a-zA-Z0-9._%+-]+@[a-zA-Z0-9.-]+\.[a-zA-Z]{2,})/\<close>\<close>
  "EMAIL_REGEX =
     [AtLeast 1 local_class, One at_class, AtLeast 1 domain_class, One dot_class,
      AtLeast 2 is_alpha]"

definition regex_test :: "item list \<Rightarrow> jsstring \<Rightarrow> bool" where
  "regex_test r s \<longleftrightarrow> regex_exec r s \<noteq> None"

definition str_match :: "jsstring \<Rightarrow> item list \<Rightarrow> jsstring option" where
  \<comment> \<open>\<open>s.match(r)\<close> for a pattern without the global flag: the matched text. The one
      capture group of \<open>EMAIL_REGEX\<close> encloses the whole pattern, so elements 0 and 1 of
      the result are this same text.\<close>
  "str_match s r = map_option (\<lambda>(i, n). take n (drop i s)) (regex_exec r s)"

section \<open>The candidate extractor\<close>

datatype node = Node (innerText: "jsstring option") (parentElement: "node option")

definition textOf :: "node \<Rightarrow> jsstring" where
  \<comment> \<open>\<open>node.innerText || ""\<close>\<close>
  "textOf n = (case innerText n of None \<Rightarrow> [] | Some t \<Rightarrow> t)"

text \<open>
  The loop of \<open>parseCandidateNode\<close> over the parent chain. The first argument is the
  number of iterations left (\<open>3 - i\<close>), the second is \<open>current\<close>. The variable
  \<open>fullText\<close> of the source is written but never read, and is left out.
\<close>

fun widen :: "nat \<Rightarrow> node option \<Rightarrow> jsstring \<Rightarrow> jsstring \<Rightarrow> jsstring \<Rightarrow> jsstring" where
  "widen 0 current email m nameRaw = nameRaw"
| "widen (Suc k) None email m nameRaw = nameRaw"
| "widen (Suc k) (Some cur) email m nameRaw =
     (let parentText = textOf cur in
      if str_includes parentText email then
        (let potentialName = trim (replaceStr parentText m []) in
         if length potentialName > length nameRaw then
           (if length potentialName > 2 then potentialName
            else widen k (parentElement cur) email m potentialName)
         else widen k (parentElement cur) email m nameRaw)
      else widen k (parentElement cur) email m nameRaw)"

definition parseCandidate :: "node \<Rightarrow> (jsstring \<times> jsstring) option" where
  \<comment> \<open>the pair \<open>(name, email)\<close> that \<open>parseCandidateNode\<close> hands to \<open>recordAttendance\<close>,
      or \<open>None\<close> where it returns before doing so\<close>
  "parseCandidate nd =
     (let text = textOf nd in
      case str_match text EMAIL_REGEX of
        None \<Rightarrow> None
      | Some m \<Rightarrow>
          (let email = toLowerCase m;
               nameRaw0 = trim (replaceStr text m []);
               nameRaw1 = (if length nameRaw0 < 2
                           then widen 3 (parentElement nd) email m nameRaw0
                           else nameRaw0);
               nameRaw = trim (stripSeparators nameRaw1);
               name = (if nameRaw = [] then takeWhile (\<lambda>c. c \<noteq> cu CHR ''@'') email
                       else nameRaw)
           in Some (name, email)))"

section \<open>Dates and numbers as text\<close>

text \<open>
  A \<open>Date\<close> object is read only through its local-time getters. The text that
  \<open>toLocaleTimeString([], {hour: '2-digit', minute: '2-digit', hour12: true})\<close> gives
  depends on the locale of the host, so it is a field of the model of the object.
\<close>

record jsdate =
  getDate :: nat
  getMonth :: nat
  getFullYear :: int
  getHours :: nat
  getMinutes :: nat
  getTime :: int
  toLocaleTimeString :: jsstring

fun digits :: "nat \<Rightarrow> jsstring" where
  "digits n = (if n < 10 then [cu CHR ''0'' + n] else digits (n div 10) @ [cu CHR ''0'' + n mod 10])"

declare digits.simps [simp del]

definition String_nat :: "nat \<Rightarrow> jsstring" where
  "String_nat n = digits n"

definition String_int :: "int \<Rightarrow> jsstring" where
  "String_int i = (if i < 0 then cu CHR ''-'' # digits (nat (- i)) else digits (nat i))"

definition padStart :: "jsstring \<Rightarrow> nat \<Rightarrow> nat \<Rightarrow> jsstring" where
  \<comment> \<open>\<open>s.padStart(n, c)\<close> for a filler \<open>c\<close> of one code unit\<close>
  "padStart s n c = replicate (n - length s) c @ s"

fun join :: "jsstring \<Rightarrow> jsstring list \<Rightarrow> jsstring" where
  "join sep [] = []"
| "join sep [x] = x"
| "join sep (x # y # ys) = x @ sep @ join sep (y # ys)"

section \<open>The attendance ledger\<close>

record attendanceRecord =
  name :: jsstring
  email :: jsstring
  time :: jsstring
  date :: jsstring
  timestamp :: int

text \<open>
  A JavaScript \<open>Map\<close> iterates in insertion order and \<open>set\<close> on a key already present
  keeps the key's place: an association list with \<open>AList.update\<close>. The observer is
  \<open>None\<close> for \<open>null\<close>, and otherwise carries whether it is connected.
\<close>

record gmeetState =
  attendanceMap :: "(jsstring \<times> attendanceRecord) list"
  isRunning :: bool
  observer :: "bool option"
  startTimestamp :: "int option"
  meetingName :: jsstring

definition initialState :: gmeetState where
  "initialState =
     \<lparr>attendanceMap = [], isRunning = False, observer = None, startTimestamp = None,
      meetingName = []\<rparr>"

record status =
  status_isRunning :: bool
  count :: nat
  status_meetingName :: jsstring
  sessionStarted :: bool

record export =
  csvContent :: jsstring
  filename :: jsstring
  export_status :: status

definition recordAttendance :: "jsstring \<Rightarrow> jsstring \<Rightarrow> jsdate \<Rightarrow> gmeetState \<Rightarrow> gmeetState" where
  "recordAttendance nm em now s =
     (let day = padStart (String_nat (getDate now)) 2 (cu CHR ''0'');
          month = padStart (String_nat (getMonth now + 1)) 2 (cu CHR ''0'');
          year = getFullYear now;
          dateStr = day @ js ''/'' @ month @ js ''/'' @ String_int year;
          timeStr = toLocaleTimeString now
      in s\<lparr>attendanceMap :=
             AList.update em
               \<lparr>name = nm, email = em, time = timeStr, date = dateStr,
                timestamp = getTime now\<rparr>
               (attendanceMap s)\<rparr>)"

definition parseCandidateNode :: "jsdate \<Rightarrow> node \<Rightarrow> gmeetState \<Rightarrow> gmeetState" where
  "parseCandidateNode now nd s =
     (case parseCandidate nd of
        None \<Rightarrow> s
      | Some (nm, em) \<Rightarrow> recordAttendance nm em now s)"

definition processNode :: "jsdate \<Rightarrow> node \<Rightarrow> gmeetState \<Rightarrow> gmeetState" where
  "processNode now nd s =
     (if textOf nd = [] then s
      else if regex_test EMAIL_REGEX (textOf nd) then parseCandidateNode now nd s
      else s)"

definition getStatus :: "gmeetState \<Rightarrow> status" where
  \<comment> \<open>\<open>!!state.startTimestamp\<close> is false for \<open>null\<close> and for the number 0\<close>
  "getStatus s =
     \<lparr>status_isRunning = isRunning s, count = length (attendanceMap s),
      status_meetingName = meetingName s,
      sessionStarted = (startTimestamp s \<noteq> None \<and> startTimestamp s \<noteq> Some 0)\<rparr>"

definition startAttendance :: "jsstring \<Rightarrow> int \<Rightarrow> gmeetState \<Rightarrow> status \<times> gmeetState" where
  \<comment> \<open>the second argument is the reading of \<open>Date.now()\<close>; an absent name and the
      empty name are both falsy\<close>
  "startAttendance nm now_ms s =
     (if isRunning s then (getStatus s, s)
      else
        (let s1 = (if nm \<noteq> [] then s\<lparr>meetingName := nm\<rparr> else s);
             s2 = s1\<lparr>isRunning := True\<rparr>;
             s3 = (if startTimestamp s2 = None \<or> startTimestamp s2 = Some 0
                   then s2\<lparr>startTimestamp := Some now_ms\<rparr> else s2);
             s4 = s3\<lparr>observer := Some True\<rparr>
         in (getStatus s4, s4)))"

definition stopAttendance :: "gmeetState \<Rightarrow> status \<times> gmeetState" where
  "stopAttendance s =
     (let s1 = s\<lparr>isRunning := False\<rparr>;
          s2 = (case observer s1 of None \<Rightarrow> s1 | Some _ \<Rightarrow> s1\<lparr>observer := Some False\<rparr>)
      in (getStatus s2, s2))"

definition restartAttendance :: "gmeetState \<Rightarrow> status \<times> gmeetState" where
  "restartAttendance s =
     (let s1 = snd (stopAttendance s);
          s2 = s1\<lparr>attendanceMap := []\<rparr>;
          s3 = s2\<lparr>meetingName := []\<rparr>;
          s4 = s3\<lparr>startTimestamp := None\<rparr>
      in (getStatus s4, s4))"

definition escapeQuotes :: "jsstring \<Rightarrow> jsstring" where
  \<comment> \<open>\<open>s.replace(/"/g, '""')\<close>\<close>
  "escapeQuotes s = concat (map (\<lambda>c. if c = 34 then [34, 34] else [c]) s)"

definition sanitize :: "jsstring \<Rightarrow> jsstring" where
  \<comment> \<open>\<open>s.replace(/[^a-zA-Z0-9-_ ]/g, "_")\<close>, code unit by code unit\<close>
  "sanitize s = map (\<lambda>c. if filename_class c then c else cu CHR ''_'') s"

definition csvRow :: "attendanceRecord \<Rightarrow> jsstring list" where
  "csvRow r = [[34] @ escapeQuotes (name r) @ [34], [34] @ email r @ [34], time r, date r]"

definition generateCSV :: "jsstring \<Rightarrow> jsdate \<Rightarrow> gmeetState \<Rightarrow> export" where
  "generateCSV providedName now s =
     (let meetingName' = (if providedName \<noteq> [] then providedName else meetingName s);
          headers = [js ''Name'', js ''Email'', js ''Time'', js ''Date''];
          rows = map (\<lambda>(k, r). csvRow r) (attendanceMap s);
          csv = join [10] (join (js '','') headers # map (join (js '','')) rows);
          d = padStart (String_nat (getDate now)) 2 (cu CHR ''0'');
          m = padStart (String_nat (getMonth now + 1)) 2 (cu CHR ''0'');
          y = getFullYear now;
          hours = getHours now;
          min = padStart (String_nat (getMinutes now)) 2 (cu CHR ''0'');
          ampm = (if hours \<ge> 12 then js ''PM'' else js ''AM'');
          hours' = (if hours mod 12 = 0 then 12 else hours mod 12);
          timeStr = padStart (String_nat hours') 2 (cu CHR ''0'') @ js ''-'' @ min @ js ''-'' @ ampm;
          filename0 = (if meetingName' \<noteq> [] then sanitize meetingName' @ js ''_'' else []);
          filename1 = filename0 @ d @ js ''-'' @ m @ js ''-'' @ String_int y @ js ''_'' @ timeStr
                        @ js ''.csv''
      in \<lparr>csvContent = csv, filename = filename1, export_status = getStatus s\<rparr>)"

section \<open>Events\<close>

text \<open>
  A mutation record carries whether its type is \<open>childList\<close> and its added nodes; each
  added node carries whether it is an element and the reading of the clock at the moment
  it is processed.
\<close>

datatype added = Added (isElement: bool) (addedNode: node) (addedAt: jsdate)

datatype mutation = Mutation (isChildList: bool) (addedNodes: "added list")

definition handleAdded :: "added \<Rightarrow> gmeetState \<Rightarrow> gmeetState" where
  "handleAdded a s = (if isElement a then processNode (addedAt a) (addedNode a) s else s)"

definition handleMutation :: "mutation \<Rightarrow> gmeetState \<Rightarrow> gmeetState" where
  "handleMutation mu s = (if isChildList mu then fold handleAdded (addedNodes mu) s else s)"

definition handleMutations :: "mutation list \<Rightarrow> gmeetState \<Rightarrow> gmeetState" where
  "handleMutations mutations s = (if \<not> isRunning s then s else fold handleMutation mutations s)"

datatype action = START jsstring | STOP | RESTART | EXPORT jsstring | GET_STATUS | OTHER

datatype response = StatusResponse status | ExportResponse export

text \<open>The message listener; the clock is read as a \<open>Date\<close> and as \<open>Date.now()\<close>.\<close>

fun onMessage :: "action \<Rightarrow> jsdate \<Rightarrow> int \<Rightarrow> gmeetState \<Rightarrow> response \<times> gmeetState" where
  "onMessage (START nm) now now_ms s =
     (let (r, s') = startAttendance nm now_ms s in (StatusResponse r, s'))"
| "onMessage STOP now now_ms s = (let (r, s') = stopAttendance s in (StatusResponse r, s'))"
| "onMessage RESTART now now_ms s =
     (let (r, s') = restartAttendance s in (StatusResponse r, s'))"
| "onMessage (EXPORT nm) now now_ms s = (ExportResponse (generateCSV nm now s), s)"
| "onMessage GET_STATUS now now_ms s = (StatusResponse (getStatus s), s)"
| "onMessage OTHER now now_ms s = (StatusResponse (getStatus s), s)"

datatype event = Message action jsdate int | Mutated "mutation list"

fun step :: "event \<Rightarrow> gmeetState \<Rightarrow> gmeetState" where
  "step (Message a now now_ms) s = snd (onMessage a now now_ms s)"
| "step (Mutated ms) s = handleMutations ms s"

definition run :: "event list \<Rightarrow> gmeetState \<Rightarrow> gmeetState" where
  "run es s = fold step es s"

section \<open>The email pattern, stated on its own\<close>

text \<open>
  An email in the sense of the pattern: a local part of one or more characters of
  \<open>[a-zA-Z0-9._%+-]\<close>, an \<open>@\<close>, a domain of one or more characters of \<open>[a-zA-Z0-9.-]\<close>,
  a dot, and two or more letters. A text contains an email when one of its substrings is
  one.
\<close>

definition valid_email :: "jsstring \<Rightarrow> bool" where
  "valid_email e \<longleftrightarrow>
     (\<exists>l \<in> set (prefixes e). \<exists>d \<in> set (sublists e). \<exists>t \<in> set (suffixes e).
        e = l @ [cu CHR ''@''] @ d @ [cu CHR ''.''] @ t
        \<and> l \<noteq> [] \<and> list_all local_class l
        \<and> d \<noteq> [] \<and> list_all domain_class d
        \<and> 2 \<le> length t \<and> list_all is_alpha t)"

definition contains_email :: "jsstring \<Rightarrow> bool" where
  "contains_email s \<longleftrightarrow> (\<exists>e \<in> set (sublists s). valid_email e)"

definition clean_name :: "jsstring \<Rightarrow> bool" where
  \<comment> \<open>a name that neither starts nor ends with white space or a separator\<close>
  "clean_name n \<longleftrightarrow>
     n \<noteq> [] \<and> \<not> is_white_space (hd n) \<and> \<not> is_white_space (last n)
     \<and> \<not> separator_class (hd n) \<and> \<not> separator_class (last n)"

section \<open>The ledger, stated on its own\<close>

text \<open>
  The invariant of the ledger: no key occurs twice, every record is stored under its own
  email, and that email is in lower case and free of double quotes.
\<close>

definition ledger_ok :: "gmeetState \<Rightarrow> bool" where
  "ledger_ok s \<longleftrightarrow>
     distinct (map fst (attendanceMap s))
     \<and> list_all (\<lambda>(k, r). email r = k \<and> toLowerCase k = k \<and> 34 \<notin> set k) (attendanceMap s)"

definition csvField :: "jsstring \<Rightarrow> jsstring" where
  \<comment> \<open>a CSV field in double quotes, with each double quote inside doubled\<close>
  "csvField s = [34] @ concat (map (\<lambda>c. if c = 34 then [34, 34] else [c]) s) @ [34]"

definition csvLine :: "attendanceRecord \<Rightarrow> jsstring" where
  \<comment> \<open>a data row with both the name and the email as escaped CSV fields\<close>
  "csvLine r = csvField (name r) @ js '','' @ csvField (email r) @ js '','' @ time r @ js '',''
                 @ date r"

text \<open>
  The file name in the words of its format: two digits each for day, month, hour of the
  12-hour clock and minute, four digits for the year.
\<close>

definition twoDigits :: "nat \<Rightarrow> jsstring" where
  "twoDigits n = [cu CHR ''0'' + n div 10, cu CHR ''0'' + n mod 10]"

definition fourDigits :: "nat \<Rightarrow> jsstring" where
  "fourDigits n =
     [cu CHR ''0'' + n div 1000, cu CHR ''0'' + n div 100 mod 10, cu CHR ''0'' + n div 10 mod 10,
      cu CHR ''0'' + n mod 10]"

definition wallClock :: "jsdate \<Rightarrow> bool" where
  \<comment> \<open>the getters of a \<open>Date\<close> in the years written with four digits\<close>
  "wallClock now \<longleftrightarrow>
     1 \<le> getDate now \<and> getDate now \<le> 31 \<and> getMonth now \<le> 11
     \<and> 1000 \<le> getFullYear now \<and> getFullYear now \<le> 9999
     \<and> getHours now \<le> 23 \<and> getMinutes now \<le> 59"

definition specFilename :: "jsstring \<Rightarrow> jsdate \<Rightarrow> jsstring" where
  "specFilename sessionName now =
     (if sessionName = [] then []
      else map (\<lambda>c. if filename_class c then c else cu CHR ''_'') sessionName @ js ''_'')
     @ twoDigits (getDate now) @ js ''-'' @ twoDigits (getMonth now + 1) @ js ''-''
     @ fourDigits (nat (getFullYear now)) @ js ''_''
     @ twoDigits ((getHours now + 11) mod 12 + 1) @ js ''-'' @ twoDigits (getMinutes now)
     @ js ''-'' @ (if getHours now < 12 then js ''AM'' else js ''PM'') @ js ''.csv''"

section \<open>Example inputs\<close>

definition exampleDate :: jsdate where
  \<comment> \<open>7 January 2026, 09:00 local time\<close>
  "exampleDate =
     \<lparr>getDate = 7, getMonth = 0, getFullYear = 2026, getHours = 9, getMinutes = 0,
      getTime = 1767776400000, toLocaleTimeString = js ''09:00 AM''\<rparr>"

definition runningState :: gmeetState where
  "runningState = initialState\<lparr>isRunning := True, startTimestamp := Some 5\<rparr>"

definition leaf :: "string \<Rightarrow> string list \<Rightarrow> node" where
  \<comment> \<open>an element with the given text below a chain of ancestors, closest first\<close>
  "leaf t anc = Node (Some (js t)) (foldr (\<lambda>a p. Some (Node (Some (js a)) p)) anc None)"

definition exampleRecord :: "jsstring \<Rightarrow> jsstring \<Rightarrow> attendanceRecord" where
  "exampleRecord nm em =
     \<lparr>name = nm, email = em, time = js ''09:00 AM'', date = js ''07/01/2026'',
      timestamp = 1767776400000\<rparr>"

definition quotedEmailState :: gmeetState where
  \<comment> \<open>a ledger whose one record has a double quote in its name and in its email\<close>
  "quotedEmailState =
     initialState\<lparr>attendanceMap :=
       [(js ''a'' @ [34] @ js ''b@c.de'',
         exampleRecord (js ''O'' @ [34] @ js ''Brien'') (js ''a'' @ [34] @ js ''b@c.de''))]\<rparr>"

section \<open>Evaluation rules\<close>

lemmas class_defs = in_range_def is_alpha_def is_alnum_def local_class_def domain_class_def
  at_class_def dot_class_def separator_class_def filename_class_def is_white_space_def
  cu_def js_def

lemma widen_numeral:
  "widen (numeral v) None em m nameRaw = nameRaw"
  "widen (numeral v) (Some cur) em m nameRaw =
     (let parentText = textOf cur in
      if str_includes parentText em then
        (let potentialName = trim (replaceStr parentText m []) in
         if length potentialName > length nameRaw then
           (if length potentialName > 2 then potentialName
            else widen (pred_numeral v) (parentElement cur) em m potentialName)
         else widen (pred_numeral v) (parentElement cur) em m nameRaw)
      else widen (pred_numeral v) (parentElement cur) em m nameRaw)"
  by (simp_all add: numeral_eq_Suc)

lemmas extractor_defs = parseCandidate_def str_match_def EMAIL_REGEX_def textOf_def trim_def
  toLowerCase_def stripSeparators_def Let_def leaf_def widen_numeral

lemmas ledger_defs = recordAttendance_def initialState_def exampleDate_def exampleRecord_def
  String_nat_def String_int_def padStart_def Let_def

section \<open>The backtracking matcher\<close>

lemma rep_sound:
  "rep c n k s = Some r \<Longrightarrow>
   \<exists>u v m. s = u @ v \<and> n \<le> length u \<and> list_all c u \<and> k v = Some m \<and> r = length u + m"
proof (induction s arbitrary: n r)
  case Nil
  then show ?case by (auto split: if_splits)
next
  case (Cons x xs)
  show ?case
  proof (cases "c x \<and> rep c (n - 1) k xs \<noteq> None")
    case True
    then obtain r' where r': "rep c (n - 1) k xs = Some r'" by auto
    with True Cons.prems have r: "r = Suc r'" by simp
    from Cons.IH [OF r'] obtain u v m where
      "xs = u @ v" "n - 1 \<le> length u" "list_all c u" "k v = Some m" "r' = length u + m"
      by blast
    with True r have "x # xs = (x # u) @ v \<and> n \<le> length (x # u) \<and> list_all c (x # u)
        \<and> k v = Some m \<and> r = length (x # u) + m"
      by auto
    then show ?thesis by blast
  next
    case False
    with Cons.prems have "n = 0" "k (x # xs) = Some r"
      by (auto split: if_splits option.splits)
    then have "x # xs = [] @ (x # xs) \<and> n \<le> length ([]::nat list) \<and> list_all c []
        \<and> k (x # xs) = Some r \<and> r = length ([]::nat list) + r"
      by simp
    then show ?thesis by blast
  qed
qed

lemma rep_complete:
  "list_all c u \<Longrightarrow> n \<le> length u \<Longrightarrow> k v \<noteq> None \<Longrightarrow> rep c n k (u @ v) \<noteq> None"
proof (induction u arbitrary: n)
  case Nil
  then show ?case by (cases v) (auto split: option.splits)
next
  case (Cons x u)
  then have "rep c (n - 1) k (u @ v) \<noteq> None" by simp
  with Cons.prems show ?case by auto
qed

lemma rep_zero_fallback:
  assumes "\<forall>u' v'. v = u' @ v' \<and> u' \<noteq> [] \<and> list_all c u' \<longrightarrow> k v' = None"
  shows "rep c 0 k v = k v"
proof (cases v)
  case Nil
  then show ?thesis by simp
next
  case (Cons x xs)
  show ?thesis
  proof (cases "c x")
    case True
    have "rep c 0 k xs = None"
    proof (rule ccontr)
      assume "rep c 0 k xs \<noteq> None"
      then obtain r where "rep c 0 k xs = Some r" by auto
      from rep_sound [OF this] obtain u w m where
        "xs = u @ w" "list_all c u" "k w = Some m" by blast
      with True Cons have "v = (x # u) @ w \<and> x # u \<noteq> [] \<and> list_all c (x # u)" by simp
      with assms have "k w = None" by blast
      with \<open>k w = Some m\<close> show False by simp
    qed
    with True Cons show ?thesis by simp
  next
    case False
    with Cons show ?thesis by simp
  qed
qed

lemma rep_greedy:
  "list_all c u \<Longrightarrow> n \<le> length u \<Longrightarrow> k v = Some m \<Longrightarrow>
   (\<forall>u' v'. u @ v = u' @ v' \<and> length u < length u' \<and> list_all c u' \<longrightarrow> k v' = None) \<Longrightarrow>
   rep c n k (u @ v) = Some (length u + m)"
proof (induction u arbitrary: n)
  case Nil
  then have "rep c 0 k v = k v"
    by (intro rep_zero_fallback) auto
  with Nil show ?case by simp
next
  case (Cons x u)
  have "\<forall>u' v'. u @ v = u' @ v' \<and> length u < length u' \<and> list_all c u' \<longrightarrow> k v' = None"
  proof (intro allI impI)
    fix u' v'
    assume a: "u @ v = u' @ v' \<and> length u < length u' \<and> list_all c u'"
    with Cons.prems(1) have "(x # u) @ v = (x # u') @ v' \<and> length (x # u) < length (x # u')
        \<and> list_all c (x # u')"
      by simp
    with Cons.prems(4) show "k v' = None" by blast
  qed
  with Cons have "rep c (n - 1) k (u @ v) = Some (length u + m)" by simp
  with Cons.prems show ?case by simp
qed

section \<open>The matcher and the email pattern\<close>

lemma valid_email_iff:
  "valid_email e \<longleftrightarrow>
     (\<exists>l d t. e = l @ [cu CHR ''@''] @ d @ [cu CHR ''.''] @ t
        \<and> l \<noteq> [] \<and> list_all local_class l
        \<and> d \<noteq> [] \<and> list_all domain_class d
        \<and> 2 \<le> length t \<and> list_all is_alpha t)"
  (is "?L \<longleftrightarrow> ?R")
proof
  assume ?L
  then show ?R unfolding valid_email_def by blast
next
  assume ?R
  then obtain l d t where e: "e = l @ [cu CHR ''@''] @ d @ [cu CHR ''.''] @ t"
    and rest: "l \<noteq> []" "list_all local_class l" "d \<noteq> []" "list_all domain_class d"
      "2 \<le> length t" "list_all is_alpha t"
    by blast
  have "prefix l e" using e by simp
  moreover have "sublist d e"
    unfolding sublist_def using e
    by (intro exI [of _ "l @ [cu CHR ''@'']"] exI [of _ "[cu CHR ''.''] @ t"]) simp
  moreover have "suffix t e"
    unfolding suffix_def using e
    by (intro exI [of _ "l @ [cu CHR ''@''] @ d @ [cu CHR ''.'']"]) simp
  ultimately have "l \<in> set (prefixes e)" "d \<in> set (sublists e)" "t \<in> set (suffixes e)"
    by simp_all
  then show ?L
    unfolding valid_email_def using e rest
    by (intro bexI [of _ l] bexI [of _ d] bexI [of _ t]) simp_all
qed

lemma contains_email_iff:
  "contains_email s \<longleftrightarrow> (\<exists>p e q. s = p @ e @ q \<and> valid_email e)"
proof -
  have "contains_email s \<longleftrightarrow> (\<exists>e. sublist e s \<and> valid_email e)"
    unfolding contains_email_def by auto
  also have "\<dots> \<longleftrightarrow> (\<exists>p e q. s = p @ e @ q \<and> valid_email e)"
    unfolding sublist_def by blast
  finally show ?thesis .
qed

lemma alpha_domain: "is_alpha c \<Longrightarrow> domain_class c"
  by (simp add: domain_class_def is_alnum_def)

lemma at_not_local: "\<not> local_class (cu CHR ''@'')"
  by (simp add: class_defs)

lemma dot_not_alpha: "\<not> is_alpha (cu CHR ''.'')"
  by (simp add: class_defs)

lemma tld_sound:
  assumes "match_items [AtLeast 2 is_alpha] s = Some r"
  shows "\<exists>t v. s = t @ v \<and> 2 \<le> length t \<and> list_all is_alpha t \<and> r = length t"
proof -
  from assms have "rep is_alpha 2 (match_items []) s = Some r" by simp
  from rep_sound [OF this] show ?thesis by auto
qed

lemma dot_tld_sound:
  assumes "match_items [One dot_class, AtLeast 2 is_alpha] s = Some r"
  shows "\<exists>t v. s = cu CHR ''.'' # t @ v \<and> 2 \<le> length t \<and> list_all is_alpha t
           \<and> r = Suc (length t)"
proof (cases s)
  case Nil
  with assms show ?thesis by simp
next
  case (Cons x xs)
  with assms have x: "x = cu CHR ''.''"
    by (auto simp: dot_class_def split: if_splits)
  from assms Cons obtain r' where "match_items [AtLeast 2 is_alpha] xs = Some r'" "r = Suc r'"
    by (auto simp: dot_class_def split: if_splits)
  with tld_sound [of xs r'] Cons x show ?thesis by auto
qed

lemma domain_sound:
  assumes "match_items [AtLeast 1 domain_class, One dot_class, AtLeast 2 is_alpha] s = Some r"
  shows "\<exists>d t v. s = d @ cu CHR ''.'' # t @ v \<and> d \<noteq> [] \<and> list_all domain_class d
           \<and> 2 \<le> length t \<and> list_all is_alpha t \<and> r = length d + Suc (length t)"
proof -
  from assms have
    "rep domain_class 1 (match_items [One dot_class, AtLeast 2 is_alpha]) s = Some r"
    by simp
  from rep_sound [OF this] obtain u w m where
    s: "s = u @ w" and u: "1 \<le> length u" "list_all domain_class u"
    and w: "match_items [One dot_class, AtLeast 2 is_alpha] w = Some m" and r: "r = length u + m"
    by blast
  from dot_tld_sound [OF w] obtain t v where
    "w = cu CHR ''.'' # t @ v" "2 \<le> length t" "list_all is_alpha t" "m = Suc (length t)"
    by blast
  with s u r have "s = u @ cu CHR ''.'' # t @ v \<and> u \<noteq> [] \<and> list_all domain_class u
           \<and> 2 \<le> length t \<and> list_all is_alpha t \<and> r = length u + Suc (length t)"
    by auto
  then show ?thesis by blast
qed

lemma at_domain_sound:
  assumes "match_items [One at_class, AtLeast 1 domain_class, One dot_class, AtLeast 2 is_alpha] s
             = Some r"
  shows "\<exists>d t v. s = cu CHR ''@'' # d @ cu CHR ''.'' # t @ v \<and> d \<noteq> [] \<and> list_all domain_class d
           \<and> 2 \<le> length t \<and> list_all is_alpha t \<and> r = Suc (length d + Suc (length t))"
proof (cases s)
  case Nil
  with assms show ?thesis by simp
next
  case (Cons x xs)
  with assms have x: "x = cu CHR ''@''"
    by (auto simp: at_class_def split: if_splits)
  from assms Cons obtain r' where
    "match_items [AtLeast 1 domain_class, One dot_class, AtLeast 2 is_alpha] xs = Some r'"
    "r = Suc r'"
    by (auto simp: at_class_def split: if_splits)
  with domain_sound [of xs r'] Cons x show ?thesis by auto
qed

lemma email_sound:
  assumes "match_items EMAIL_REGEX s = Some r"
  shows "\<exists>l d t v. s = l @ cu CHR ''@'' # d @ cu CHR ''.'' # t @ v
           \<and> l \<noteq> [] \<and> list_all local_class l \<and> d \<noteq> [] \<and> list_all domain_class d
           \<and> 2 \<le> length t \<and> list_all is_alpha t
           \<and> r = length l + Suc (length d + Suc (length t))"
proof -
  from assms have
    "rep local_class 1
       (match_items [One at_class, AtLeast 1 domain_class, One dot_class, AtLeast 2 is_alpha]) s
     = Some r"
    by (simp add: EMAIL_REGEX_def)
  from rep_sound [OF this] obtain u w m where
    s: "s = u @ w" and u: "1 \<le> length u" "list_all local_class u"
    and w: "match_items [One at_class, AtLeast 1 domain_class, One dot_class, AtLeast 2 is_alpha] w
             = Some m"
    and r: "r = length u + m"
    by blast
  from at_domain_sound [OF w] obtain d t v where
    "w = cu CHR ''@'' # d @ cu CHR ''.'' # t @ v" "d \<noteq> []" "list_all domain_class d"
    "2 \<le> length t" "list_all is_alpha t" "m = Suc (length d + Suc (length t))"
    by blast
  with s u r have "s = u @ cu CHR ''@'' # d @ cu CHR ''.'' # t @ v
           \<and> u \<noteq> [] \<and> list_all local_class u \<and> d \<noteq> [] \<and> list_all domain_class d
           \<and> 2 \<le> length t \<and> list_all is_alpha t
           \<and> r = length u + Suc (length d + Suc (length t))"
    by auto
  then show ?thesis by blast
qed

lemma email_match_valid:
  assumes "match_items EMAIL_REGEX s = Some r"
  shows "r \<le> length s \<and> valid_email (take r s)"
proof -
  from email_sound [OF assms] obtain l d t v where
    s: "s = l @ cu CHR ''@'' # d @ cu CHR ''.'' # t @ v"
    and c: "l \<noteq> []" "list_all local_class l" "d \<noteq> []" "list_all domain_class d"
      "2 \<le> length t" "list_all is_alpha t"
    and r: "r = length l + Suc (length d + Suc (length t))"
    by blast
  have "s = (l @ [cu CHR ''@''] @ d @ [cu CHR ''.''] @ t) @ v" using s by simp
  moreover have "r = length (l @ [cu CHR ''@''] @ d @ [cu CHR ''.''] @ t)" using r by simp
  ultimately have "take r s = l @ [cu CHR ''@''] @ d @ [cu CHR ''.''] @ t" "r \<le> length s"
    by simp_all
  with c show ?thesis by (auto simp: valid_email_iff)
qed

lemma email_complete:
  assumes "valid_email e"
  shows "match_items EMAIL_REGEX (e @ v) \<noteq> None"
proof -
  from assms obtain l d t where e: "e = l @ [cu CHR ''@''] @ d @ [cu CHR ''.''] @ t"
    and c: "l \<noteq> []" "list_all local_class l" "d \<noteq> []" "list_all domain_class d"
      "2 \<le> length t" "list_all is_alpha t"
    unfolding valid_email_iff by blast
  have "rep is_alpha 2 (match_items []) (t @ v) \<noteq> None"
    using c by (intro rep_complete) simp_all
  then have k2: "match_items [One dot_class, AtLeast 2 is_alpha] (cu CHR ''.'' # t @ v) \<noteq> None"
    by (simp add: dot_class_def)
  have "rep domain_class 1 (match_items [One dot_class, AtLeast 2 is_alpha])
          (d @ cu CHR ''.'' # t @ v) \<noteq> None"
    using c k2 by (intro rep_complete) (simp_all add: Suc_le_eq)
  then have k1:
    "match_items [One at_class, AtLeast 1 domain_class, One dot_class, AtLeast 2 is_alpha]
       (cu CHR ''@'' # d @ cu CHR ''.'' # t @ v) \<noteq> None"
    by (simp add: at_class_def)
  have "rep local_class 1
          (match_items [One at_class, AtLeast 1 domain_class, One dot_class, AtLeast 2 is_alpha])
          (l @ cu CHR ''@'' # d @ cu CHR ''.'' # t @ v) \<noteq> None"
    using c k1 by (intro rep_complete) (simp_all add: Suc_le_eq)
  then show ?thesis by (simp add: EMAIL_REGEX_def e)
qed

lemma dot_tld_none: "s = [] \<or> hd s \<noteq> cu CHR ''.'' \<Longrightarrow>
    match_items [One dot_class, AtLeast 2 is_alpha] s = None"
  by (cases s) (auto simp: dot_class_def)

lemma at_domain_none: "s = [] \<or> hd s \<noteq> cu CHR ''@'' \<Longrightarrow>
    match_items [One at_class, AtLeast 1 domain_class, One dot_class, AtLeast 2 is_alpha] s = None"
  by (cases s) (auto simp: at_class_def)

lemma list_all_nth: "list_all P xs \<Longrightarrow> i < length xs \<Longrightarrow> P (xs ! i)"
  by (simp add: list_all_length)

lemma tld_greedy:
  assumes t: "2 \<le> length t" "list_all is_alpha t" and v: "v = [] \<or> \<not> is_alpha (hd v)"
  shows "match_items [AtLeast 2 is_alpha] (t @ v) = Some (length t)"
proof -
  have "\<forall>u' v'. t @ v = u' @ v' \<and> length t < length u' \<and> list_all is_alpha u'
          \<longrightarrow> match_items [] v' = None"
  proof (intro allI impI)
    fix u' v'
    assume a: "t @ v = u' @ v' \<and> length t < length u' \<and> list_all is_alpha u'"
    then have "is_alpha (u' ! length t)" by (simp add: list_all_nth)
    moreover have "u' ! length t = (t @ v) ! length t"
      using a by (simp add: nth_append)
    moreover have "v \<noteq> []" using a by (cases v) auto
    ultimately have "is_alpha (hd v)" by (simp add: nth_append hd_conv_nth)
    with v \<open>v \<noteq> []\<close> show "match_items [] v' = None" by simp
  qed
  with t have "rep is_alpha 2 (match_items []) (t @ v) = Some (length t + 0)"
    by (intro rep_greedy) simp_all
  then show ?thesis by simp
qed

lemma domain_greedy:
  assumes d: "d \<noteq> []" "list_all domain_class d"
    and t: "2 \<le> length t" "list_all is_alpha t"
    and v: "v = [] \<or> \<not> domain_class (hd v)"
  shows "match_items [AtLeast 1 domain_class, One dot_class, AtLeast 2 is_alpha]
           (d @ cu CHR ''.'' # t @ v) = Some (length d + Suc (length t))"
proof -
  let ?k = "match_items [One dot_class, AtLeast 2 is_alpha]"
  let ?w = "cu CHR ''.'' # t @ v"
  have v': "v = [] \<or> \<not> is_alpha (hd v)" using v alpha_domain by blast
  have k: "?k ?w = Some (Suc (length t))"
    using tld_greedy [OF t v'] by (simp add: dot_class_def)
  have "\<forall>u' v'. d @ ?w = u' @ v' \<and> length d < length u' \<and> list_all domain_class u'
          \<longrightarrow> ?k v' = None"
  proof (intro allI impI)
    fix u' v'
    assume a: "d @ ?w = u' @ v' \<and> length d < length u' \<and> list_all domain_class u'"
    define j where "j = length u' - Suc (length d)"
    have len: "length u' = length d + Suc j" using a unfolding j_def by arith
    have v'eq: "v' = drop j (t @ v)"
    proof -
      have "v' = drop (length u') (u' @ v')" by simp
      also have "\<dots> = drop (length d + Suc j) (d @ ?w)" using a len by simp
      also have "\<dots> = drop j (t @ v)" by simp
      finally show ?thesis .
    qed
    have jle: "j \<le> length t"
    proof (rule ccontr)
      assume "\<not> j \<le> length t"
      then have jt: "length t < j" by simp
      have "length (d @ ?w) = length (u' @ v')" using a by simp
      then have "length u' \<le> length d + Suc (length t + length v)" by simp
      with len jt have vne: "v \<noteq> []" by (cases v) auto
      have idx: "length d + Suc (length t) < length u'" using len jt by simp
      then have "domain_class (u' ! (length d + Suc (length t)))"
        using a by (simp add: list_all_nth)
      moreover have "u' ! (length d + Suc (length t)) = (d @ ?w) ! (length d + Suc (length t))"
        using a idx by (metis nth_append)
      moreover have "(d @ ?w) ! (length d + Suc (length t)) = hd v"
        using vne by (simp add: nth_append hd_conv_nth)
      ultimately show False using v vne by simp
    qed
    show "?k v' = None"
    proof (cases "j < length t")
      case True
      then have "v' \<noteq> []" "hd v' = t ! j"
        using v'eq by (simp_all add: hd_drop_conv_nth nth_append)
      moreover have "is_alpha (t ! j)" using t True by (simp add: list_all_nth)
      ultimately have "hd v' \<noteq> cu CHR ''.''" using dot_not_alpha by metis
      then show ?thesis by (intro dot_tld_none) simp
    next
      case False
      with jle have "v' = v" using v'eq by simp
      moreover have "domain_class (cu CHR ''.'')" by (simp add: class_defs)
      ultimately have "v' = [] \<or> hd v' \<noteq> cu CHR ''.''" using v by metis
      then show ?thesis by (rule dot_tld_none)
    qed
  qed
  with d k have "rep domain_class 1 ?k (d @ ?w) = Some (length d + Suc (length t))"
    by (intro rep_greedy) (simp_all add: Suc_le_eq)
  then show ?thesis by simp
qed

lemma email_greedy:
  assumes e: "valid_email e" and v: "v = [] \<or> \<not> domain_class (hd v)"
  shows "match_items EMAIL_REGEX (e @ v) = Some (length e)"
proof -
  from e obtain l d t where eq: "e = l @ [cu CHR ''@''] @ d @ [cu CHR ''.''] @ t"
    and c: "l \<noteq> []" "list_all local_class l" "d \<noteq> []" "list_all domain_class d"
      "2 \<le> length t" "list_all is_alpha t"
    unfolding valid_email_iff by blast
  let ?k = "match_items [One at_class, AtLeast 1 domain_class, One dot_class, AtLeast 2 is_alpha]"
  let ?w = "cu CHR ''@'' # d @ cu CHR ''.'' # t @ v"
  have k: "?k ?w = Some (Suc (length d + Suc (length t)))"
    using domain_greedy [OF c(3-6) v] by (simp add: at_class_def)
  have "\<forall>u' v'. l @ ?w = u' @ v' \<and> length l < length u' \<and> list_all local_class u'
          \<longrightarrow> ?k v' = None"
  proof (intro allI impI)
    fix u' v'
    assume a: "l @ ?w = u' @ v' \<and> length l < length u' \<and> list_all local_class u'"
    then have "local_class (u' ! length l)" by (simp add: list_all_nth)
    moreover have "u' ! length l = (l @ ?w) ! length l"
      using a by (metis nth_append)
    ultimately have "local_class (cu CHR ''@'')" by simp
    with at_not_local show "?k v' = None" by simp
  qed
  with c k have "rep local_class 1 ?k (l @ ?w) = Some (length l + Suc (length d + Suc (length t)))"
    by (intro rep_greedy) (simp_all add: Suc_le_eq)
  then show ?thesis by (simp add: EMAIL_REGEX_def eq)
qed

lemma regex_exec_None_iff:
  "regex_exec r s = None \<longleftrightarrow> (\<forall>j \<le> length s. match_items r (drop j s) = None)"
proof (induction s)
  case Nil
  then show ?case by simp
next
  case (Cons x xs)
  have "(\<forall>j \<le> length (x # xs). match_items r (drop j (x # xs)) = None) \<longleftrightarrow>
        match_items r (x # xs) = None \<and> (\<forall>j \<le> length xs. match_items r (drop j xs) = None)"
    (is "?A \<longleftrightarrow> ?B")
  proof
    assume a: ?A
    have "match_items r (drop 0 (x # xs)) = None" using a by blast
    moreover have "\<forall>j \<le> length xs. match_items r (drop j xs) = None"
    proof (intro allI impI)
      fix j assume "j \<le> length xs"
      then have "match_items r (drop (Suc j) (x # xs)) = None" using a by (metis Suc_le_mono length_Cons)
      then show "match_items r (drop j xs) = None" by simp
    qed
    ultimately show ?B by simp
  next
    assume b: ?B
    show ?A
    proof (intro allI impI)
      fix j assume "j \<le> length (x # xs)"
      then show "match_items r (drop j (x # xs)) = None"
        using b by (cases j) simp_all
    qed
  qed
  with Cons show ?case by (simp split: option.split)
qed

lemma regex_exec_Some:
  "regex_exec r s = Some (i, n) \<Longrightarrow>
   i \<le> length s \<and> match_items r (drop i s) = Some n
   \<and> (\<forall>j < i. match_items r (drop j s) = None)"
proof (induction s arbitrary: i)
  case Nil
  then show ?case by auto
next
  case (Cons x xs)
  show ?case
  proof (cases "match_items r (x # xs)")
    case (Some m)
    with Cons.prems show ?thesis by simp
  next
    case None
    with Cons.prems obtain i' where i': "regex_exec r xs = Some (i', n)" "i = Suc i'"
      by auto
    from Cons.IH [OF i'(1)] have ih: "i' \<le> length xs" "match_items r (drop i' xs) = Some n"
      "\<forall>j < i'. match_items r (drop j xs) = None"
      by simp_all
    have "\<forall>j < i. match_items r (drop j (x # xs)) = None"
    proof (intro allI impI)
      fix j assume "j < i"
      then show "match_items r (drop j (x # xs)) = None"
        using None ih(3) i'(2) by (cases j) simp_all
    qed
    with ih i' show ?thesis by simp
  qed
qed

lemma regex_exec_first:
  "i \<le> length s \<Longrightarrow> match_items r (drop i s) = Some n \<Longrightarrow>
   (\<forall>j < i. match_items r (drop j s) = None) \<Longrightarrow> regex_exec r s = Some (i, n)"
proof (induction s arbitrary: i)
  case Nil
  then show ?case by simp
next
  case (Cons x xs)
  show ?case
  proof (cases i)
    case 0
    with Cons.prems show ?thesis by simp
  next
    case (Suc i')
    with Cons.prems have none: "match_items r (x # xs) = None"
      by (metis drop0 zero_less_Suc)
    have "\<forall>j < i'. match_items r (drop j xs) = None"
    proof (intro allI impI)
      fix j assume "j < i'"
      then have "match_items r (drop (Suc j) (x # xs)) = None"
        using Cons.prems(3) Suc by (metis Suc_less_eq)
      then show "match_items r (drop j xs) = None" by simp
    qed
    with Cons.prems Suc have "regex_exec r xs = Some (i', n)"
      by (intro Cons.IH) simp_all
    with none Suc show ?thesis by simp
  qed
qed

lemma regex_test_iff: "regex_test EMAIL_REGEX s \<longleftrightarrow> contains_email s"
proof
  assume "regex_test EMAIL_REGEX s"
  then obtain i n where "regex_exec EMAIL_REGEX s = Some (i, n)"
    by (auto simp: regex_test_def)
  then have m: "match_items EMAIL_REGEX (drop i s) = Some n"
    using regex_exec_Some by blast
  then have "valid_email (take n (drop i s))" using email_match_valid by blast
  moreover have "s = take i s @ take n (drop i s) @ drop n (drop i s)"
    by (simp only: append_take_drop_id)
  ultimately show "contains_email s" unfolding contains_email_iff by blast
next
  assume "contains_email s"
  then obtain p e q where s: "s = p @ e @ q" and e: "valid_email e"
    unfolding contains_email_iff by blast
  have ne: "match_items EMAIL_REGEX (drop (length p) s) \<noteq> None"
    using email_complete [OF e] s by simp
  have len: "length p \<le> length s" using s by simp
  have "regex_exec EMAIL_REGEX s \<noteq> None"
  proof
    assume "regex_exec EMAIL_REGEX s = None"
    then have "\<forall>j \<le> length s. match_items EMAIL_REGEX (drop j s) = None"
      by (simp only: regex_exec_None_iff)
    from this [rule_format, OF len] ne show False by simp
  qed
  then show "regex_test EMAIL_REGEX s" by (simp add: regex_test_def)
qed

lemma str_match_None_iff: "str_match s EMAIL_REGEX = None \<longleftrightarrow> \<not> contains_email s"
  using regex_test_iff [of s]
  by (cases "regex_exec EMAIL_REGEX s") (auto simp: str_match_def regex_test_def)

lemma str_match_valid:
  assumes "str_match s EMAIL_REGEX = Some m"
  shows "valid_email m \<and> sublist m s"
proof -
  from assms obtain i n where ex: "regex_exec EMAIL_REGEX s = Some (i, n)"
    and m: "m = take n (drop i s)"
    by (auto simp: str_match_def)
  from regex_exec_Some [OF ex] have "match_items EMAIL_REGEX (drop i s) = Some n" by simp
  then have "valid_email m" using email_match_valid m by blast
  moreover have "s = take i s @ m @ drop n (drop i s)"
    unfolding m by (simp only: append_take_drop_id)
  then have "sublist m s" unfolding sublist_def by blast
  ultimately show ?thesis by simp
qed

section \<open>The extractor\<close>

lemma valid_email_chars:
  assumes "valid_email e" and "c \<in> set e"
  shows "local_class c \<or> domain_class c \<or> c = cu CHR ''@''"
proof -
  from assms(1) obtain l d t where e: "e = l @ [cu CHR ''@''] @ d @ [cu CHR ''.''] @ t"
    and c: "list_all local_class l" "list_all domain_class d" "list_all is_alpha t"
    unfolding valid_email_iff by blast
  have "domain_class (cu CHR ''.'')" by (simp add: class_defs)
  with assms(2) e c alpha_domain show ?thesis
    by (auto simp: list_all_iff)
qed

lemma valid_email_no_space: "valid_email e \<Longrightarrow> 32 \<notin> set e"
  using valid_email_chars [of e 32] by (auto simp: class_defs)

lemma valid_email_no_quote: "valid_email e \<Longrightarrow> 34 \<notin> set e"
  using valid_email_chars [of e 34] by (auto simp: class_defs)

lemma valid_email_nonempty: "valid_email e \<Longrightarrow> e \<noteq> []"
  unfolding valid_email_iff by auto

lemma prefix_before:
  assumes "prefix x (a @ c # b)" and "c \<notin> set x"
  shows "prefix x a"
proof -
  from assms(1) consider "prefix x a" | us where "x = a @ us" "prefix us (c # b)"
    unfolding prefix_append by blast
  then show ?thesis
  proof cases
    case 1
    then show ?thesis .
  next
    case 2
    with assms(2) have "us = []" by (cases us) auto
    with 2 show ?thesis by simp
  qed
qed

lemma no_match_before:
  assumes n: "\<not> contains_email N" and j: "j \<le> length N"
  shows "match_items EMAIL_REGEX (drop j (N @ 32 # E)) = None"
proof (rule ccontr)
  assume "match_items EMAIL_REGEX (drop j (N @ 32 # E)) \<noteq> None"
  then obtain r where r: "match_items EMAIL_REGEX (drop j (N @ 32 # E)) = Some r" by auto
  let ?m = "take r (drop j (N @ 32 # E))"
  from email_match_valid [OF r] have v: "valid_email ?m" by simp
  have "drop j (N @ 32 # E) = drop j N @ 32 # E" using j by simp
  then have "prefix ?m (drop j N @ 32 # E)" by (metis take_is_prefix)
  then have "prefix ?m (drop j N)" using valid_email_no_space [OF v] by (rule prefix_before)
  then have "sublist ?m (drop j N)" by (rule prefix_imp_sublist)
  then have "sublist ?m N" using sublist_drop sublist_order.order_trans by blast
  with v n show False by (auto simp: contains_email_def)
qed

lemma exec_name_email:
  assumes "valid_email E" and "\<not> contains_email N"
  shows "regex_exec EMAIL_REGEX (N @ 32 # E) = Some (Suc (length N), length E)"
proof (rule regex_exec_first)
  show "Suc (length N) \<le> length (N @ 32 # E)" by simp
  show "match_items EMAIL_REGEX (drop (Suc (length N)) (N @ 32 # E)) = Some (length E)"
    using email_greedy [OF assms(1), of "[]"] by simp
  show "\<forall>j < Suc (length N). match_items EMAIL_REGEX (drop j (N @ 32 # E)) = None"
    using no_match_before [OF assms(2)] by (simp add: less_Suc_eq_le)
qed

lemma replaceStr_first:
  "p \<noteq> [] \<Longrightarrow> (\<forall>j < length u. \<not> prefix p (drop j (u @ p @ v))) \<Longrightarrow>
   replaceStr (u @ p @ v) p r = u @ r @ v"
proof (induction u)
  case Nil
  then show ?case by (cases p) simp_all
next
  case (Cons x u)
  from Cons.prems(2) have "\<not> prefix p (drop 0 ((x # u) @ p @ v))" by blast
  then have np: "\<not> prefix p (x # u @ p @ v)" by simp
  have "\<forall>j < length u. \<not> prefix p (drop j (u @ p @ v))"
  proof (intro allI impI)
    fix j assume "j < length u"
    then have "\<not> prefix p (drop (Suc j) ((x # u) @ p @ v))"
      using Cons.prems(2) by (metis Suc_less_eq length_Cons)
    then show "\<not> prefix p (drop j (u @ p @ v))" by simp
  qed
  with Cons have "replaceStr (u @ p @ v) p r = u @ r @ v" by simp
  with np show ?case by simp
qed

lemma replace_name_email:
  assumes e: "valid_email E" and n: "\<not> contains_email N"
  shows "replaceStr (N @ 32 # E) E [] = N @ [32]"
proof -
  have "\<forall>j < length (N @ [32]). \<not> prefix E (drop j ((N @ [32]) @ E @ []))"
  proof (intro allI impI notI)
    fix j assume j: "j < length (N @ [32])" and p: "prefix E (drop j ((N @ [32]) @ E @ []))"
    from j have "j \<le> length N" by simp
    with p have "prefix E (drop j N @ 32 # E)" by simp
    then have "prefix E (drop j N)" using valid_email_no_space [OF e] by (rule prefix_before)
    then have "sublist E (drop j N)" by (rule prefix_imp_sublist)
    then have "sublist E N" using sublist_drop sublist_order.order_trans by blast
    with e n show False by (auto simp: contains_email_def)
  qed
  with valid_email_nonempty [OF e]
  have "replaceStr ((N @ [32]) @ E @ []) E [] = (N @ [32]) @ [] @ []"
    by (rule replaceStr_first)
  then show ?thesis by simp
qed

lemma dropWhile_hd: "s \<noteq> [] \<Longrightarrow> \<not> P (hd s) \<Longrightarrow> dropWhile P s = s"
  by (cases s) simp_all

lemma trim_clean: "n \<noteq> [] \<Longrightarrow> \<not> is_white_space (hd n) \<Longrightarrow> \<not> is_white_space (last n) \<Longrightarrow>
    trim n = n"
  by (simp add: trim_def dropWhile_hd hd_rev)

lemma trim_clean_space:
  assumes "n \<noteq> []" "\<not> is_white_space (hd n)" "\<not> is_white_space (last n)"
  shows "trim (n @ [32]) = n"
proof -
  have "is_white_space 32" by (simp add: is_white_space_def)
  moreover have "dropWhile is_white_space (n @ [32]) = n @ [32]"
    using assms by (intro dropWhile_hd) simp_all
  ultimately show ?thesis using assms by (simp add: trim_def dropWhile_hd hd_rev)
qed

lemma stripSeparators_clean:
  "n \<noteq> [] \<Longrightarrow> \<not> separator_class (hd n) \<Longrightarrow> \<not> separator_class (last n) \<Longrightarrow>
   stripSeparators n = n"
  by (simp add: stripSeparators_def dropWhile_hd hd_rev)

text \<open>
  C1. Take an email \<open>E\<close> of the shape of the pattern and a name \<open>N\<close> of at least two code
  units that neither starts nor ends with white space or a separator and contains no
  email of its own. The fragment made of \<open>N\<close>, a space and \<open>E\<close>, with no ancestors, yields
  the name \<open>N\<close> and the email \<open>E\<close> in lower case.
\<close>

theorem name_then_email:
  assumes "valid_email E" and "2 \<le> length N" and "clean_name N" and "\<not> contains_email N"
  shows "parseCandidate (Node (Some (N @ js '' '' @ E)) None) = Some (N, toLowerCase E)"
proof -
  have sp: "N @ js '' '' @ E = N @ 32 # E" by (simp add: js_def cu_def)
  have m: "str_match (N @ 32 # E) EMAIL_REGEX = Some E"
    using exec_name_email [OF assms(1,4)] by (simp add: str_match_def)
  have r: "trim (replaceStr (N @ 32 # E) E []) = N"
    using replace_name_email [OF assms(1,4)] assms(3)
    by (simp add: clean_name_def trim_clean_space)
  have c: "trim (stripSeparators N) = N"
    using assms(3) by (simp add: clean_name_def stripSeparators_clean trim_clean)
  have ne: "N \<noteq> []" using assms(3) by (simp add: clean_name_def)
  show ?thesis
    using m r c ne assms(2) by (simp add: parseCandidate_def textOf_def sp Let_def)
qed

text \<open>
  C9. When the text of a node contains no email, the extractor yields no candidate,
  whatever the ancestors of the node are, and processing the node leaves the ledger as
  it was. Every function on this path is total: nothing can raise.
\<close>

theorem no_email_no_candidate:
  assumes "\<not> contains_email (textOf nd)"
  shows "parseCandidate nd = None \<and> parseCandidateNode now nd s = s \<and> processNode now nd s = s"
proof -
  have "str_match (textOf nd) EMAIL_REGEX = None"
    using assms by (simp add: str_match_None_iff)
  then have "parseCandidate nd = None" by (simp add: parseCandidate_def)
  moreover have "\<not> regex_test EMAIL_REGEX (textOf nd)" using assms by (simp add: regex_test_iff)
  ultimately show ?thesis by (simp add: parseCandidateNode_def processNode_def)
qed

lemma valid_email_by_match: "match_items EMAIL_REGEX e = Some (length e) \<Longrightarrow> valid_email e"
  using email_match_valid [of e "length e"] by simp

text \<open>
  C1 at the fragment \<open>Rahul Verma rahul@example.com\<close>.
\<close>

theorem name_then_email_witness:
  "valid_email (js ''rahul@example.com'') \<and> 2 \<le> length (js ''Rahul Verma'')
   \<and> clean_name (js ''Rahul Verma'') \<and> \<not> contains_email (js ''Rahul Verma'')
   \<and> parseCandidate (leaf ''Rahul Verma rahul@example.com'' [])
       = Some (js ''Rahul Verma'', js ''rahul@example.com'')"
proof -
  have h1: "valid_email (js ''rahul@example.com'')"
    by (rule valid_email_by_match) (simp add: EMAIL_REGEX_def class_defs)
  have h2: "2 \<le> length (js ''Rahul Verma'')" by (simp add: js_def)
  have h3: "clean_name (js ''Rahul Verma'')" by (simp add: clean_name_def class_defs)
  have h4: "\<not> contains_email (js ''Rahul Verma'')"
    unfolding regex_test_iff [symmetric]
    by (simp add: regex_test_def EMAIL_REGEX_def class_defs)
  from name_then_email [OF h1 h2 h3 h4] h1 h2 h3 h4 show ?thesis
    by (simp add: leaf_def toLowerCase_def class_defs)
qed

text \<open>
  C9 at the text \<open>hello world\<close>, below an ancestor that does hold an email.
\<close>

theorem no_email_no_candidate_witness:
  "\<not> contains_email (textOf (leaf ''hello world'' [''a@b.co'']))
   \<and> parseCandidate (leaf ''hello world'' [''a@b.co'']) = None
   \<and> processNode exampleDate (leaf ''hello world'' [''a@b.co'']) runningState = runningState"
proof -
  have h: "\<not> contains_email (textOf (leaf ''hello world'' [''a@b.co'']))"
    unfolding regex_test_iff [symmetric]
    by (simp add: regex_test_def EMAIL_REGEX_def textOf_def leaf_def class_defs)
  from no_email_no_candidate [OF h, of exampleDate runningState] h show ?thesis by simp
qed

text \<open>
  The scenario of the specification, with the email in lower case throughout: the
  parent is adopted and its separator stripped.
\<close>

lemma widening_scenario:
  "parseCandidate (leaf ''rahul@example.com'' [''Rahul Verma: rahul@example.com''])
     = Some (js ''Rahul Verma'', js ''rahul@example.com'')"
  by (simp add: extractor_defs class_defs)

text \<open>
  C2. Ancestor widening when the email is typed in mixed case. The leaf holds only
  \<open>Rahul@Example.com\<close> and its parent holds \<open>Rahul Verma: Rahul@Example.com\<close>. The parent
  contains the matched text, and with that text removed and trimmed it reads
  \<open>Rahul Verma:\<close>, longer than the empty candidate. The loop nevertheless tests the parent
  against the lower-cased email, finds nothing, skips the parent, and the name falls back
  to the local part \<open>rahul\<close>.
\<close>

theorem widening_mixed_case:
  "parseCandidate (leaf ''Rahul@Example.com'' [''Rahul Verma: Rahul@Example.com''])
     = Some (js ''rahul'', js ''rahul@example.com'')
   \<and> str_match (js ''Rahul@Example.com'') EMAIL_REGEX = Some (js ''Rahul@Example.com'')
   \<and> sublist (js ''Rahul@Example.com'') (js ''Rahul Verma: Rahul@Example.com'')
   \<and> trim (replaceStr (js ''Rahul Verma: Rahul@Example.com'') (js ''Rahul@Example.com'') [])
       = js ''Rahul Verma:''"
  by (simp add: extractor_defs class_defs sublist_code)

section \<open>The ledger\<close>

lemma toLowerCase_idem: "toLowerCase (toLowerCase s) = toLowerCase s"
  by (induction s) (auto simp: toLowerCase_def in_range_def cu_def)

lemma toLowerCase_no_quote: "34 \<notin> set s \<Longrightarrow> 34 \<notin> set (toLowerCase s)"
  by (induction s) (auto simp: toLowerCase_def in_range_def cu_def)

lemma parseCandidate_email:
  assumes "parseCandidate nd = Some (nm, em)"
  shows "\<exists>m. str_match (textOf nd) EMAIL_REGEX = Some m \<and> valid_email m \<and> em = toLowerCase m"
proof (cases "str_match (textOf nd) EMAIL_REGEX")
  case None
  with assms show ?thesis by (simp add: parseCandidate_def)
next
  case (Some m)
  with assms have "em = toLowerCase m" by (auto simp: parseCandidate_def Let_def)
  with Some str_match_valid [OF Some] show ?thesis by simp
qed

lemma parseCandidate_email_ok:
  assumes "parseCandidate nd = Some (nm, em)"
  shows "toLowerCase em = em \<and> 34 \<notin> set em"
proof -
  from parseCandidate_email [OF assms] obtain m where "valid_email m" "em = toLowerCase m"
    by blast
  then show ?thesis
    by (simp add: toLowerCase_idem toLowerCase_no_quote valid_email_no_quote)
qed

lemma set_update_subset: "set (AList.update k v al) \<subseteq> insert (k, v) (set al)"
  by (induction al) auto

lemma recordAttendance_map:
  "attendanceMap (recordAttendance nm em now s)
     = AList.update em
         \<lparr>name = nm, email = em, time = toLocaleTimeString now,
          date = padStart (String_nat (getDate now)) 2 (cu CHR ''0'') @ js ''/''
                   @ padStart (String_nat (getMonth now + 1)) 2 (cu CHR ''0'') @ js ''/''
                   @ String_int (getFullYear now),
          timestamp = getTime now\<rparr>
         (attendanceMap s)"
  by (simp add: recordAttendance_def Let_def)

lemma recordAttendance_ok:
  assumes "ledger_ok s" and "toLowerCase em = em" and "34 \<notin> set em"
  shows "ledger_ok (recordAttendance nm em now s)"
proof -
  let ?r = "\<lparr>name = nm, email = em, time = toLocaleTimeString now,
          date = padStart (String_nat (getDate now)) 2 (cu CHR ''0'') @ js ''/''
                   @ padStart (String_nat (getMonth now + 1)) 2 (cu CHR ''0'') @ js ''/''
                   @ String_int (getFullYear now),
          timestamp = getTime now\<rparr>"
  have "\<forall>x \<in> set (AList.update em ?r (attendanceMap s)).
          (\<lambda>(k, r). email r = k \<and> toLowerCase k = k \<and> 34 \<notin> set k) x"
  proof
    fix x assume "x \<in> set (AList.update em ?r (attendanceMap s))"
    then have "x = (em, ?r) \<or> x \<in> set (attendanceMap s)"
      using set_update_subset by fastforce
    then show "(\<lambda>(k, r). email r = k \<and> toLowerCase k = k \<and> 34 \<notin> set k) x"
      using assms by (auto simp: ledger_ok_def list_all_iff)
  qed
  then show ?thesis
    using assms(1) by (simp add: ledger_ok_def recordAttendance_map distinct_update list_all_iff)
qed

lemma processNode_ok: "ledger_ok s \<Longrightarrow> ledger_ok (processNode now nd s)"
  using parseCandidate_email_ok [of nd]
  by (auto simp: processNode_def parseCandidateNode_def recordAttendance_ok split: option.split)

lemma handleAdded_ok: "ledger_ok s \<Longrightarrow> ledger_ok (handleAdded a s)"
  by (simp add: handleAdded_def processNode_ok)

lemma fold_ok:
  "(\<And>x s. P s \<Longrightarrow> P (f x s)) \<Longrightarrow> P s \<Longrightarrow> P (fold f xs s)"
  by (induction xs arbitrary: s) simp_all

lemma handleMutations_ok: "ledger_ok s \<Longrightarrow> ledger_ok (handleMutations ms s)"
proof -
  assume s: "ledger_ok s"
  have m: "\<And>mu s. ledger_ok s \<Longrightarrow> ledger_ok (handleMutation mu s)"
    unfolding handleMutation_def using fold_ok [of ledger_ok handleAdded] handleAdded_ok by simp
  show ?thesis
    unfolding handleMutations_def using fold_ok [of ledger_ok handleMutation] m s by simp
qed

lemma ledger_ok_map: "attendanceMap s' = attendanceMap s \<Longrightarrow> ledger_ok s \<Longrightarrow> ledger_ok s'"
  by (simp add: ledger_ok_def)

lemma start_map: "attendanceMap (snd (startAttendance nm t s)) = attendanceMap s"
  by (simp add: startAttendance_def Let_def)

lemma stop_map: "attendanceMap (snd (stopAttendance s)) = attendanceMap s"
  by (simp add: stopAttendance_def Let_def split: option.split)

lemma restart_map: "attendanceMap (snd (restartAttendance s)) = []"
  by (simp add: restartAttendance_def Let_def)

lemma onMessage_ok: "ledger_ok s \<Longrightarrow> ledger_ok (snd (onMessage a now t s))"
proof (cases a)
  case (START nm)
  assume "ledger_ok s"
  with START ledger_ok_map [OF start_map] show ?thesis by (simp add: split_beta)
next
  case STOP
  assume "ledger_ok s"
  with STOP ledger_ok_map [OF stop_map] show ?thesis by (simp add: split_beta)
next
  case RESTART
  then show ?thesis by (simp add: split_beta ledger_ok_def restart_map)
qed simp_all

lemma step_ok: "ledger_ok s \<Longrightarrow> ledger_ok (step e s)"
  by (cases e) (simp_all add: onMessage_ok handleMutations_ok)

lemma run_ok: "ledger_ok s \<Longrightarrow> ledger_ok (run es s)"
  unfolding run_def using fold_ok [of ledger_ok step] step_ok by simp

lemma initial_ok: "ledger_ok initialState"
  by (simp add: ledger_ok_def initialState_def)

text \<open>
  C3, as the code has it. \<open>recordAttendance\<close> stores the record under the email exactly as
  it is passed, with that same text in the email field; it does not change the case. The
  lower case comes from its caller: whenever the extractor finds a candidate, the email
  it passes on is the matched text in lower case, and lower-casing it again changes
  nothing.
\<close>

theorem upsert_keyed_as_given:
  "map_option (\<lambda>r. (name r, email r)) (map_of (attendanceMap (recordAttendance nm em now s)) em)
     = Some (nm, em)
   \<and> (parseCandidate nd = Some (nm', em') \<longrightarrow>
        parseCandidateNode now nd s = recordAttendance nm' em' now s
        \<and> toLowerCase em' = em'
        \<and> (\<exists>m. str_match (textOf nd) EMAIL_REGEX = Some m \<and> em' = toLowerCase m))"
proof -
  have "map_option (\<lambda>r. (name r, email r))
          (map_of (attendanceMap (recordAttendance nm em now s)) em) = Some (nm, em)"
    by (simp add: recordAttendance_map update_conv')
  moreover have "parseCandidate nd = Some (nm', em') \<longrightarrow>
        parseCandidateNode now nd s = recordAttendance nm' em' now s
        \<and> toLowerCase em' = em'
        \<and> (\<exists>m. str_match (textOf nd) EMAIL_REGEX = Some m \<and> em' = toLowerCase m)"
    using parseCandidate_email [of nd nm' em'] parseCandidate_email_ok [of nd nm' em']
    by (auto simp: parseCandidateNode_def)
  ultimately show ?thesis by blast
qed

text \<open>
  C3 at the fragment \<open>Rahul Verma Rahul@Example.com\<close>: through the extractor the record
  is keyed in lower case.
\<close>

theorem upsert_keyed_as_given_witness:
  "parseCandidate (leaf ''Rahul Verma Rahul@Example.com'' [])
     = Some (js ''Rahul Verma'', js ''rahul@example.com'')
   \<and> map fst (attendanceMap
        (parseCandidateNode exampleDate (leaf ''Rahul Verma Rahul@Example.com'' []) initialState))
       = [js ''rahul@example.com'']
   \<and> toLowerCase (js ''rahul@example.com'') = js ''rahul@example.com''"
proof -
  have p: "parseCandidate (leaf ''Rahul Verma Rahul@Example.com'' [])
     = Some (js ''Rahul Verma'', js ''rahul@example.com'')"
    by (simp add: extractor_defs class_defs)
  from upsert_keyed_as_given [of "[]" "[]" exampleDate initialState
      "leaf ''Rahul Verma Rahul@Example.com'' []" "js ''Rahul Verma''" "js ''rahul@example.com''"] p
  show ?thesis by (simp add: recordAttendance_map initialState_def)
qed

text \<open>
  C3 as stated fails: called with \<open>Rahul@Example.com\<close>, \<open>recordAttendance\<close> keys the record
  by that text, and nothing is stored under the lower-cased email.
\<close>

theorem upsert_normalizes_counterexample:
  "map fst (attendanceMap
      (recordAttendance (js ''Rahul'') (js ''Rahul@Example.com'') exampleDate initialState))
     = [js ''Rahul@Example.com'']
   \<and> toLowerCase (js ''Rahul@Example.com'') = js ''rahul@example.com''
   \<and> map_of (attendanceMap
        (recordAttendance (js ''Rahul'') (js ''Rahul@Example.com'') exampleDate initialState))
       (toLowerCase (js ''Rahul@Example.com'')) = None"
  by (simp add: recordAttendance_map initialState_def toLowerCase_def class_defs)

lemma one_key:
  "distinct (map fst al) \<Longrightarrow> e \<in> fst ` set al \<Longrightarrow> length (filter (\<lambda>p. fst p = e) al) = 1"
proof (induction al)
  case Nil
  then show ?case by simp
next
  case (Cons a al)
  show ?case
  proof (cases "fst a = e")
    case True
    with Cons.prems have "e \<notin> fst ` set al" by auto
    then have "filter (\<lambda>p. fst p = e) al = []"
      by (auto simp: filter_empty_conv image_iff)
    with True show ?thesis by simp
  next
    case False
    with Cons show ?thesis by auto
  qed
qed

lemma recordAttendance_keys:
  "fst ` set (attendanceMap (recordAttendance nm em now s)) = insert em (fst ` set (attendanceMap s))"
  by (simp add: recordAttendance_map dom_update)

lemma processNode_keys:
  "K \<subseteq> fst ` set (attendanceMap s) \<Longrightarrow> K \<subseteq> fst ` set (attendanceMap (processNode now nd s))"
proof (cases "parseCandidate nd")
  case None
  assume "K \<subseteq> fst ` set (attendanceMap s)"
  with None show ?thesis by (simp add: processNode_def parseCandidateNode_def)
next
  case (Some p)
  assume k: "K \<subseteq> fst ` set (attendanceMap s)"
  obtain nm em where p: "p = (nm, em)" by (cases p)
  have "K \<subseteq> fst ` set (attendanceMap (recordAttendance nm em now s))"
    using k unfolding recordAttendance_keys by blast
  with Some p k show ?thesis by (simp add: processNode_def parseCandidateNode_def)
qed

lemma handleAdded_keys:
  "K \<subseteq> fst ` set (attendanceMap s) \<Longrightarrow> K \<subseteq> fst ` set (attendanceMap (handleAdded a s))"
  by (simp add: handleAdded_def processNode_keys)

lemma handleMutation_keys:
  "K \<subseteq> fst ` set (attendanceMap s) \<Longrightarrow> K \<subseteq> fst ` set (attendanceMap (handleMutation mu s))"
  unfolding handleMutation_def
  using fold_ok [of "\<lambda>s. K \<subseteq> fst ` set (attendanceMap s)" handleAdded s "addedNodes mu"]
    handleAdded_keys [of K]
  by simp

lemma handleMutations_keys:
  "fst ` set (attendanceMap s) \<subseteq> fst ` set (attendanceMap (handleMutations ms s))"
  unfolding handleMutations_def
  using fold_ok [of "\<lambda>s'. fst ` set (attendanceMap s) \<subseteq> fst ` set (attendanceMap s')"
      handleMutation s ms]
    handleMutation_keys [of "fst ` set (attendanceMap s)"]
  by simp

lemma normalized_keys:
  assumes "ledger_ok s"
  shows "map (toLowerCase \<circ> fst) (attendanceMap s) = map fst (attendanceMap s)"
proof (rule map_cong [OF refl])
  fix x assume "x \<in> set (attendanceMap s)"
  with assms have "toLowerCase (fst x) = fst x"
    by (cases x) (auto simp: ledger_ok_def list_all_iff)
  then show "(toLowerCase \<circ> fst) x = fst x" by simp
qed

lemma normalized_filter:
  assumes "ledger_ok s"
  shows "filter (\<lambda>p. toLowerCase (fst p) = k) (attendanceMap s)
           = filter (\<lambda>p. fst p = k) (attendanceMap s)"
proof (rule filter_cong [OF refl])
  fix x assume "x \<in> set (attendanceMap s)"
  with assms have "toLowerCase (fst x) = fst x"
    by (cases x) (auto simp: ledger_ok_def list_all_iff)
  then show "(toLowerCase (fst x) = k) = (fst x = k)" by simp
qed

lemma str_match_empty: "str_match [] EMAIL_REGEX = None"
  by (simp add: str_match_def EMAIL_REGEX_def)

lemma processNode_match:
  assumes "str_match (textOf nd) EMAIL_REGEX = Some m"
  shows "\<exists>nm. parseCandidate nd = Some (nm, toLowerCase m)
           \<and> processNode now nd s = recordAttendance nm (toLowerCase m) now s"
proof -
  from assms obtain nm where p: "parseCandidate nd = Some (nm, toLowerCase m)"
    by (simp add: parseCandidate_def Let_def)
  have ne: "textOf nd \<noteq> []" using assms str_match_empty by auto
  have t: "regex_test EMAIL_REGEX (textOf nd)"
    using assms by (auto simp: regex_test_def str_match_def)
  from p ne t have "processNode now nd s = recordAttendance nm (toLowerCase m) now s"
    by (simp add: processNode_def parseCandidateNode_def)
  with p show ?thesis by blast
qed

lemma two_fragments:
  assumes m1: "str_match (textOf nd1) EMAIL_REGEX = Some m1"
    and m2: "str_match (textOf nd2) EMAIL_REGEX = Some m2"
    and eq: "toLowerCase m1 = toLowerCase m2"
    and ok: "ledger_ok s"
  shows "length (filter (\<lambda>p. toLowerCase (fst p) = toLowerCase m1)
           (attendanceMap (processNode t2 nd2 (processNode t1 nd1 s)))) = 1
         \<and> map_of (attendanceMap (processNode t2 nd2 (processNode t1 nd1 s))) (toLowerCase m1)
             = map_of (attendanceMap (processNode t2 nd2 initialState)) (toLowerCase m1)
         \<and> (\<exists>n2. parseCandidate nd2 = Some (n2, toLowerCase m1)
               \<and> map_option name
                    (map_of (attendanceMap (processNode t2 nd2 (processNode t1 nd1 s)))
                       (toLowerCase m1)) = Some n2)"
proof -
  let ?k = "toLowerCase m1"
  let ?s1 = "processNode t1 nd1 s"
  let ?s2 = "processNode t2 nd2 ?s1"
  from processNode_match [OF m2, of t2 ?s1] obtain n2 where
    p2: "parseCandidate nd2 = Some (n2, ?k)"
    and s2: "?s2 = recordAttendance n2 ?k t2 ?s1"
    using eq by auto
  from processNode_match [OF m2, of t2 initialState] p2 have
    i2: "processNode t2 nd2 initialState = recordAttendance n2 ?k t2 initialState"
    using eq by auto
  have ok2: "ledger_ok ?s2" using ok by (intro processNode_ok)
  then have d: "distinct (map fst (attendanceMap ?s2))" by (simp add: ledger_ok_def)
  have "?k \<in> fst ` set (attendanceMap ?s2)"
    unfolding s2 recordAttendance_keys by simp
  with d have "length (filter (\<lambda>p. fst p = ?k) (attendanceMap ?s2)) = 1" by (rule one_key)
  then have one: "length (filter (\<lambda>p. toLowerCase (fst p) = ?k) (attendanceMap ?s2)) = 1"
    by (simp only: normalized_filter [OF ok2])
  have last: "map_of (attendanceMap ?s2) ?k
                = map_of (attendanceMap (processNode t2 nd2 initialState)) ?k"
    unfolding s2 i2 by (simp add: recordAttendance_map update_conv')
  have nm: "map_option name (map_of (attendanceMap ?s2) ?k) = Some n2"
    unfolding s2 by (simp add: recordAttendance_map update_conv')
  from one last nm p2 show ?thesis by blast
qed

text \<open>
  C5, as the code has it. Whatever events have run, no two records of the ledger have
  emails that agree after lower-casing. Two fragments whose matched emails agree after
  lower-casing, processed one after the other on such a ledger, leave exactly one record
  for that email: the record the second fragment alone would store, with the name taken
  from the second fragment. Two calls of \<open>recordAttendance\<close> with the same email leave
  exactly one record under it, the one of the second call. Neither \<open>recordAttendance\<close>
  nor a batch of mutations removes a key.
\<close>

theorem one_record_per_key:
  "distinct (map (toLowerCase \<circ> fst) (attendanceMap (run es initialState)))
   \<and> (str_match (textOf nd1) EMAIL_REGEX = Some m1
        \<and> str_match (textOf nd2) EMAIL_REGEX = Some m2
        \<and> toLowerCase m1 = toLowerCase m2 \<longrightarrow>
        length (filter (\<lambda>p. toLowerCase (fst p) = toLowerCase m1)
          (attendanceMap (processNode t2 nd2 (processNode t1 nd1 (run es initialState))))) = 1
        \<and> map_of (attendanceMap (processNode t2 nd2 (processNode t1 nd1 (run es initialState))))
             (toLowerCase m1)
            = map_of (attendanceMap (processNode t2 nd2 initialState)) (toLowerCase m1)
        \<and> (\<exists>n2. parseCandidate nd2 = Some (n2, toLowerCase m1)
              \<and> map_option name
                   (map_of
                      (attendanceMap
                         (processNode t2 nd2 (processNode t1 nd1 (run es initialState))))
                      (toLowerCase m1)) = Some n2))
   \<and> length (filter (\<lambda>p. fst p = e)
        (attendanceMap (recordAttendance n2 e t2 (recordAttendance n1 e t1 (run es initialState)))))
       = 1
   \<and> map_of (attendanceMap (recordAttendance n2 e t2 (recordAttendance n1 e t1 s))) e
       = map_of (attendanceMap (recordAttendance n2 e t2 initialState)) e
   \<and> map_option name
        (map_of (attendanceMap (recordAttendance n2 e t2 (recordAttendance n1 e t1 s))) e)
       = Some n2
   \<and> fst ` set (attendanceMap s) \<subseteq> fst ` set (attendanceMap (recordAttendance n e t s))
   \<and> fst ` set (attendanceMap s) \<subseteq> fst ` set (attendanceMap (handleMutations ms s))"
proof -
  have ok: "ledger_ok (run es initialState)" by (rule run_ok [OF initial_ok])
  then have d: "distinct (map fst (attendanceMap (run es initialState)))"
    by (simp add: ledger_ok_def)
  then have norm: "distinct (map (toLowerCase \<circ> fst) (attendanceMap (run es initialState)))"
    by (simp only: normalized_keys [OF ok])
  have two: "str_match (textOf nd1) EMAIL_REGEX = Some m1
        \<and> str_match (textOf nd2) EMAIL_REGEX = Some m2
        \<and> toLowerCase m1 = toLowerCase m2 \<longrightarrow>
        length (filter (\<lambda>p. toLowerCase (fst p) = toLowerCase m1)
          (attendanceMap (processNode t2 nd2 (processNode t1 nd1 (run es initialState))))) = 1
        \<and> map_of (attendanceMap (processNode t2 nd2 (processNode t1 nd1 (run es initialState))))
             (toLowerCase m1)
            = map_of (attendanceMap (processNode t2 nd2 initialState)) (toLowerCase m1)
        \<and> (\<exists>n2. parseCandidate nd2 = Some (n2, toLowerCase m1)
              \<and> map_option name
                   (map_of
                      (attendanceMap
                         (processNode t2 nd2 (processNode t1 nd1 (run es initialState))))
                      (toLowerCase m1)) = Some n2)"
    using two_fragments [of nd1 m1 nd2 m2 "run es initialState" t2 t1] ok by blast
  from d have "distinct (map fst
      (attendanceMap (recordAttendance n2 e t2 (recordAttendance n1 e t1 (run es initialState)))))"
    by (simp add: recordAttendance_map distinct_update)
  moreover have "e \<in> fst ` set
      (attendanceMap (recordAttendance n2 e t2 (recordAttendance n1 e t1 (run es initialState))))"
    by (simp add: recordAttendance_map dom_update)
  ultimately have one: "length (filter (\<lambda>p. fst p = e)
        (attendanceMap (recordAttendance n2 e t2 (recordAttendance n1 e t1 (run es initialState)))))
       = 1"
    by (rule one_key)
  have last: "map_of (attendanceMap (recordAttendance n2 e t2 (recordAttendance n1 e t1 s))) e
       = map_of (attendanceMap (recordAttendance n2 e t2 initialState)) e"
    by (simp add: recordAttendance_map update_conv')
  have nm: "map_option name
        (map_of (attendanceMap (recordAttendance n2 e t2 (recordAttendance n1 e t1 s))) e)
       = Some n2"
    by (simp add: recordAttendance_map update_conv')
  have keep: "fst ` set (attendanceMap s) \<subseteq> fst ` set (attendanceMap (recordAttendance n e t s))"
    unfolding recordAttendance_keys by blast
  from norm two one last nm keep handleMutations_keys show ?thesis by blast
qed

text \<open>
  C5 on two chat lines with the same address in different case, seen one after the other
  on a started ledger: both matches agree after lower-casing, and one record with the
  later name remains.
\<close>

theorem one_record_per_key_witness:
  "str_match (textOf (leaf ''Al A@B.co'' [])) EMAIL_REGEX = Some (js ''A@B.co'')
   \<and> str_match (textOf (leaf ''Bo a@b.co'' [])) EMAIL_REGEX = Some (js ''a@b.co'')
   \<and> toLowerCase (js ''A@B.co'') = toLowerCase (js ''a@b.co'')
   \<and> length (filter (\<lambda>p. toLowerCase (fst p) = js ''a@b.co'')
        (attendanceMap
           (processNode exampleDate (leaf ''Bo a@b.co'' [])
              (processNode exampleDate (leaf ''Al A@B.co'' [])
                 (run [Message (START []) exampleDate 5] initialState))))) = 1
   \<and> map_option name
        (map_of
           (attendanceMap
              (processNode exampleDate (leaf ''Bo a@b.co'' [])
                 (processNode exampleDate (leaf ''Al A@B.co'' [])
                    (run [Message (START []) exampleDate 5] initialState))))
           (js ''a@b.co'')) = Some (js ''Bo'')"
proof -
  have h1: "str_match (textOf (leaf ''Al A@B.co'' [])) EMAIL_REGEX = Some (js ''A@B.co'')"
    by (simp add: str_match_def EMAIL_REGEX_def textOf_def leaf_def class_defs)
  have h2: "str_match (textOf (leaf ''Bo a@b.co'' [])) EMAIL_REGEX = Some (js ''a@b.co'')"
    by (simp add: str_match_def EMAIL_REGEX_def textOf_def leaf_def class_defs)
  have h3: "toLowerCase (js ''A@B.co'') = toLowerCase (js ''a@b.co'')"
    by (simp add: toLowerCase_def class_defs)
  have l: "toLowerCase (js ''A@B.co'') = js ''a@b.co''"
    by (simp add: toLowerCase_def class_defs)
  have p2: "parseCandidate (leaf ''Bo a@b.co'' []) = Some (js ''Bo'', js ''a@b.co'')"
    by (simp add: extractor_defs class_defs)
  from one_record_per_key [of "[Message (START []) exampleDate 5]" "leaf ''Al A@B.co'' []"
      "js ''A@B.co''" "leaf ''Bo a@b.co'' []" "js ''a@b.co''" exampleDate exampleDate]
    h1 h2 h3
  have "length (filter (\<lambda>p. toLowerCase (fst p) = toLowerCase (js ''A@B.co''))
        (attendanceMap
           (processNode exampleDate (leaf ''Bo a@b.co'' [])
              (processNode exampleDate (leaf ''Al A@B.co'' [])
                 (run [Message (START []) exampleDate 5] initialState))))) = 1
     \<and> (\<exists>n2. parseCandidate (leaf ''Bo a@b.co'' []) = Some (n2, toLowerCase (js ''A@B.co''))
          \<and> map_option name
        (map_of
           (attendanceMap
              (processNode exampleDate (leaf ''Bo a@b.co'' [])
                 (processNode exampleDate (leaf ''Al A@B.co'' [])
                    (run [Message (START []) exampleDate 5] initialState))))
           (toLowerCase (js ''A@B.co''))) = Some n2)"
    by blast
  with h1 h2 h3 p2 show ?thesis unfolding l by auto
qed

text \<open>
  C5 as stated fails for two emails that differ only in case: \<open>recordAttendance\<close> does not
  normalize, and keeps one record for each.
\<close>

theorem one_record_per_normalized_email_counterexample:
  "toLowerCase (js ''A@B.co'') = toLowerCase (js ''a@b.co'')
   \<and> map (\<lambda>(k, r). (k, name r))
        (attendanceMap (recordAttendance (js ''Bo'') (js ''a@b.co'') exampleDate
           (recordAttendance (js ''Al'') (js ''A@B.co'') exampleDate initialState)))
       = [(js ''A@B.co'', js ''Al''), (js ''a@b.co'', js ''Bo'')]"
  by (simp add: recordAttendance_map initialState_def toLowerCase_def class_defs)

section \<open>Control functions\<close>

text \<open>
  C6. From every state, \<open>restartAttendance\<close> (the ledger's reset) returns a status with
  count 0 and not running, and leaves a state with no records, not running, with the
  meeting name empty and the start timestamp cleared.
\<close>

theorem restart_clears:
  "count (fst (restartAttendance s)) = 0
   \<and> status_isRunning (fst (restartAttendance s)) = False
   \<and> attendanceMap (snd (restartAttendance s)) = []
   \<and> isRunning (snd (restartAttendance s)) = False
   \<and> meetingName (snd (restartAttendance s)) = []
   \<and> startTimestamp (snd (restartAttendance s)) = None
   \<and> fst (restartAttendance s) = getStatus (snd (restartAttendance s))"
  by (simp add: restartAttendance_def stopAttendance_def getStatus_def Let_def
      split: option.split)

lemma start_running: "isRunning s \<Longrightarrow> startAttendance nm t s = (getStatus s, s)"
  by (simp add: startAttendance_def)

lemma start_sets_running: "isRunning (snd (startAttendance nm t s))"
  by (simp add: startAttendance_def Let_def)

text \<open>
  C7. \<open>startAttendance\<close> on a running ledger returns the current status and leaves the
  whole state as it is; so a second start right after a first one changes nothing, and
  in particular keeps the start timestamp.
\<close>

theorem start_idempotent:
  "(isRunning s \<longrightarrow> startAttendance nm t s = (getStatus s, s))
   \<and> startAttendance nm2 t2 (snd (startAttendance nm1 t1 s))
       = (getStatus (snd (startAttendance nm1 t1 s)), snd (startAttendance nm1 t1 s))
   \<and> startTimestamp (snd (startAttendance nm2 t2 (snd (startAttendance nm1 t1 s))))
       = startTimestamp (snd (startAttendance nm1 t1 s))"
  using start_running start_sets_running by simp

text \<open>
  C7 on a running ledger, and on two starts in a row from the initial state.
\<close>

theorem start_idempotent_witness:
  "isRunning runningState
   \<and> startAttendance (js ''Standup'') 9 runningState = (getStatus runningState, runningState)
   \<and> startTimestamp (snd (startAttendance [] 9 (snd (startAttendance [] 7 initialState))))
       = Some 7"
  using start_idempotent [of runningState "js ''Standup''" 9 "[]" 9 "[]" 7]
    start_idempotent [of initialState "[]" 0 "[]" 9 "[]" 7]
  by (simp add: runningState_def initialState_def startAttendance_def Let_def)

section \<open>CSV rendering\<close>

text \<open>
  C10. With no records in the ledger, the CSV text that \<open>generateCSV\<close> returns is the
  header line alone, with no line break after it, whatever session name is passed.
\<close>

theorem empty_ledger_csv:
  "attendanceMap s = [] \<Longrightarrow> csvContent (generateCSV nm now s) = js ''Name,Email,Time,Date''"
  by (simp add: generateCSV_def Let_def js_def)

text \<open>
  C10 on the initial state.
\<close>

theorem empty_ledger_csv_witness:
  "attendanceMap initialState = []
   \<and> csvContent (generateCSV (js ''Daily Standup'') exampleDate initialState)
       = js ''Name,Email,Time,Date''"
  using empty_ledger_csv [of initialState "js ''Daily Standup''" exampleDate]
  by (simp add: initialState_def)

lemma digits_small: "n < 10 \<Longrightarrow> digits n = [cu CHR ''0'' + n]"
  by (simp add: digits.simps)

lemma digits_two: "10 \<le> n \<Longrightarrow> n < 100 \<Longrightarrow> digits n = [cu CHR ''0'' + n div 10, cu CHR ''0'' + n mod 10]"
  by (subst digits.simps) (simp add: digits_small)

lemma digits_three:
  "100 \<le> n \<Longrightarrow> n < 1000 \<Longrightarrow>
   digits n = [cu CHR ''0'' + n div 100, cu CHR ''0'' + n div 10 mod 10, cu CHR ''0'' + n mod 10]"
  by (subst digits.simps) (simp add: digits_two div_mult2_eq [symmetric])

lemma digits_four: "1000 \<le> n \<Longrightarrow> n < 10000 \<Longrightarrow> digits n = fourDigits n"
  by (subst digits.simps) (simp add: digits_three fourDigits_def div_mult2_eq [symmetric])

lemma pad_two: "n < 100 \<Longrightarrow> padStart (String_nat n) 2 (cu CHR ''0'') = twoDigits n"
  by (cases "n < 10") (simp_all add: padStart_def String_nat_def digits_small digits_two twoDigits_def)

lemma hour12: "(if h mod 12 = 0 then 12 else h mod 12) = (h + 11) mod 12 + (1::nat)"
proof -
  define k where "k = h mod 12"
  have k: "k < 12" by (simp add: k_def)
  have e: "(h + 11) mod 12 = (k + 11) mod 12" by (simp add: k_def mod_add_left_eq)
  show ?thesis
  proof (cases "k = 0")
    case True
    with e show ?thesis by (simp add: k_def)
  next
    case False
    then have "12 \<le> k + 11" by simp
    then have "(k + 11) mod 12 = (k + 11 - 12) mod 12" by (rule le_mod_geq)
    also have "\<dots> = k - 1" using k False by simp
    finally show ?thesis using e False by (simp add: k_def)
  qed
qed

lemma escapeQuotes_id: "34 \<notin> set s \<Longrightarrow> escapeQuotes s = s"
  by (induction s) (simp_all add: escapeQuotes_def)

lemma join_rows:
  "map (join (js '','')) (map (\<lambda>(k, r). csvRow r) al)
     = map (\<lambda>(k, r). csvField (name r) @ js '','' @ [34] @ email r @ [34] @ js '','' @ time r
                         @ js '','' @ date r) al"
  by (induction al) (auto simp: csvRow_def csvField_def escapeQuotes_def)

lemma csvLine_ok:
  assumes "ledger_ok s"
  shows "map (\<lambda>(k, r). csvField (name r) @ js '','' @ [34] @ email r @ [34] @ js '','' @ time r
                         @ js '','' @ date r) (attendanceMap s)
         = map (\<lambda>(k, r). csvLine r) (attendanceMap s)"
proof (rule map_cong [OF refl])
  fix x assume x: "x \<in> set (attendanceMap s)"
  obtain k r where kr: "x = (k, r)" by (cases x)
  with x assms have "34 \<notin> set (email r)"
    by (auto simp: ledger_ok_def list_all_iff)
  then have "[34] @ email r @ [34] = csvField (email r)"
    using escapeQuotes_id [of "email r"] by (simp add: csvField_def escapeQuotes_def)
  then show "(\<lambda>(k, r). csvField (name r) @ js '','' @ [34] @ email r @ [34] @ js '','' @ time r
                         @ js '','' @ date r) x = (\<lambda>(k, r). csvLine r) x"
    using kr by (simp add: csvLine_def)
qed

text \<open>
  C4, as the code has it. Every data row is the name as a CSV field (in double quotes,
  inner double quotes doubled), the email between double quotes as it is stored, and the
  time and the date bare. No email in a ledger that the events have built contains a
  double quote, so on every such ledger the email is a CSV field as well.
\<close>

theorem csv_rows:
  "csvContent (generateCSV nm now s)
     = join [10] (js ''Name,Email,Time,Date''
         # map (\<lambda>(k, r). csvField (name r) @ js '','' @ [34] @ email r @ [34] @ js '','' @ time r
                             @ js '','' @ date r) (attendanceMap s))
   \<and> (\<forall>(k, r) \<in> set (attendanceMap (run es initialState)). 34 \<notin> set (email r))
   \<and> csvContent (generateCSV nm now (run es initialState))
       = join [10] (js ''Name,Email,Time,Date''
           # map (\<lambda>(k, r). csvLine r) (attendanceMap (run es initialState)))"
proof -
  have h: "join (js '','') [js ''Name'', js ''Email'', js ''Time'', js ''Date'']
             = js ''Name,Email,Time,Date''"
    by (simp add: js_def)
  have a: "\<And>s. csvContent (generateCSV nm now s)
     = join [10] (js ''Name,Email,Time,Date''
         # map (\<lambda>(k, r). csvField (name r) @ js '','' @ [34] @ email r @ [34] @ js '','' @ time r
                             @ js '','' @ date r) (attendanceMap s))"
    by (simp only: generateCSV_def Let_def export.simps h join_rows)
  have ok: "ledger_ok (run es initialState)" by (rule run_ok [OF initial_ok])
  then have b: "\<forall>(k, r) \<in> set (attendanceMap (run es initialState)). 34 \<notin> set (email r)"
    by (auto simp: ledger_ok_def list_all_iff)
  have c: "csvContent (generateCSV nm now (run es initialState))
       = join [10] (js ''Name,Email,Time,Date''
           # map (\<lambda>(k, r). csvLine r) (attendanceMap (run es initialState)))"
    by (simp only: a csvLine_ok [OF ok])
  from a [of s] b c show ?thesis by blast
qed

text \<open>
  C4 on a run: a name with a double quote in it, seen in the chat, is rendered with
  that quote doubled.
\<close>

theorem csv_rows_witness:
  "attendanceMap (run [Message (START []) exampleDate 5,
       Mutated [Mutation True
         [Added True (Node (Some (js ''O'' @ [34] @ js ''Brien ob@x.io'')) None) exampleDate]]]
     initialState)
     = [(js ''ob@x.io'', exampleRecord (js ''O'' @ [34] @ js ''Brien'') (js ''ob@x.io''))]
   \<and> csvContent (generateCSV [] exampleDate (run [Message (START []) exampleDate 5,
       Mutated [Mutation True
         [Added True (Node (Some (js ''O'' @ [34] @ js ''Brien ob@x.io'')) None) exampleDate]]]
     initialState))
     = js ''Name,Email,Time,Date'' @ [10] @ [34] @ js ''O'' @ [34, 34] @ js ''Brien'' @ [34]
         @ js '','' @ [34] @ js ''ob@x.io'' @ [34] @ js '',09:00 AM,07/01/2026''"
proof -
  have p: "parseCandidate (Node (Some (js ''O'' @ [34] @ js ''Brien ob@x.io'')) None)
             = Some (js ''O'' @ [34] @ js ''Brien'', js ''ob@x.io'')"
    by (simp add: extractor_defs class_defs)
  have t: "regex_test EMAIL_REGEX (js ''O'' @ [34] @ js ''Brien ob@x.io'')"
    by (simp add: regex_test_def EMAIL_REGEX_def class_defs)
  have r: "run [Message (START []) exampleDate 5,
       Mutated [Mutation True
         [Added True (Node (Some (js ''O'' @ [34] @ js ''Brien ob@x.io'')) None) exampleDate]]]
     initialState
     = \<lparr>attendanceMap =
          [(js ''ob@x.io'', exampleRecord (js ''O'' @ [34] @ js ''Brien'') (js ''ob@x.io''))],
        isRunning = True, observer = Some True, startTimestamp = Some 5, meetingName = []\<rparr>"
    using p t
    by (simp add: run_def startAttendance_def handleMutations_def handleMutation_def
        handleAdded_def processNode_def parseCandidateNode_def textOf_def ledger_defs
        digits_small digits_four fourDigits_def js_def cu_def)
  from csv_rows [of "[]" exampleDate "run [Message (START []) exampleDate 5,
       Mutated [Mutation True
         [Added True (Node (Some (js ''O'' @ [34] @ js ''Brien ob@x.io'')) None) exampleDate]]]
     initialState" "[]"]
  show ?thesis
    unfolding r by (simp add: csvField_def exampleRecord_def js_def cu_def)
qed

text \<open>
  C4 as stated fails on a ledger whose stored email contains a double quote: the quote
  of the email is written once, not doubled.
\<close>

theorem email_quote_not_doubled_counterexample:
  "csvContent (generateCSV [] exampleDate quotedEmailState)
     = js ''Name,Email,Time,Date'' @ [10] @ [34] @ js ''O'' @ [34, 34] @ js ''Brien'' @ [34]
         @ js '','' @ [34] @ js ''a'' @ [34] @ js ''b@c.de'' @ [34] @ js '',09:00 AM,07/01/2026''
   \<and> csvContent (generateCSV [] exampleDate quotedEmailState)
       \<noteq> join [10] (js ''Name,Email,Time,Date''
             # map (\<lambda>(k, r). csvLine r) (attendanceMap quotedEmailState))"
  by (simp add: generateCSV_def Let_def quotedEmailState_def initialState_def exampleRecord_def
      csvRow_def escapeQuotes_def csvLine_def csvField_def js_def cu_def)

text \<open>
  C8. For a clock reading in the years written with four digits, the file name is the
  session name (the one passed, else the stored one) with every code unit outside
  \<open>[A-Za-z0-9-_ ]\<close> replaced by an underscore and followed by an underscore, or nothing
  when there is no session name; then day, month, year, hour of the 12-hour clock,
  minute and AM or PM of the clock reading; then \<open>.csv\<close>. The start timestamp of the
  session plays no part.
\<close>

theorem filename_format:
  assumes "wallClock now"
  shows "filename (generateCSV p now s) = specFilename (if p \<noteq> [] then p else meetingName s) now
         \<and> filename (generateCSV p now (s\<lparr>startTimestamp := t\<rparr>)) = filename (generateCSV p now s)"
proof -
  from assms have d: "getDate now < 100" and m: "getMonth now + 1 < 100"
    and mi: "getMinutes now < 100"
    and y: "1000 \<le> nat (getFullYear now)" "nat (getFullYear now) < 10000" "\<not> getFullYear now < 0"
    unfolding wallClock_def by linarith+
  have h: "(if getHours now mod 12 = 0 then 12 else getHours now mod 12) < 100"
    by (simp add: less_imp_le_nat mod_less_divisor [THEN less_trans])
  have year: "String_int (getFullYear now) = fourDigits (nat (getFullYear now))"
    using y by (simp add: String_int_def digits_four)
  show ?thesis
    using pad_two [OF d] pad_two [OF m] pad_two [OF mi] pad_two [OF h] year
    by (simp add: generateCSV_def specFilename_def sanitize_def Let_def hour12 not_le)
qed

text \<open>
  C8 at 7 January 2026, 09:00, with a session name, with a stored name that needs
  replacing, and with none.
\<close>

theorem filename_format_witness:
  "wallClock exampleDate
   \<and> filename (generateCSV (js ''Daily_Standup'') exampleDate initialState)
       = js ''Daily_Standup_07-01-2026_09-00-AM.csv''
   \<and> filename (generateCSV [] exampleDate (initialState\<lparr>meetingName := js ''Q&A 1''\<rparr>))
       = js ''Q_A 1_07-01-2026_09-00-AM.csv''
   \<and> filename (generateCSV [] exampleDate initialState) = js ''07-01-2026_09-00-AM.csv''"
proof -
  have w: "wallClock exampleDate" by (simp add: wallClock_def exampleDate_def)
  from filename_format [OF w, of "js ''Daily_Standup''" initialState None]
    filename_format [OF w, of "[]" "initialState\<lparr>meetingName := js ''Q&A 1''\<rparr>" None]
    filename_format [OF w, of "[]" initialState None] w
  show ?thesis
    by (simp add: specFilename_def twoDigits_def fourDigits_def exampleDate_def initialState_def
        class_defs)
qed

end
